theory Spec2Isabelle
  imports Complex_Main "HOL-Library.Log_Nat"
begin

section \<open>Decoded JSON values and Python dictionaries\<close>

text \<open>
  The payload of the usage endpoint is what \<^verbatim>\<open>json.loads\<close> returns: \<^verbatim>\<open>None\<close>,
  a bool, an int, a float, a string, a list or a dict. A dict is an association list
  in iteration order (its keys are distinct). A float is read as the real number it
  stands for. The arithmetic of the glide slope on the clock is exact here; that of
  the bar is the doubles' own, on the numbers of the section on Python numbers.
\<close>

datatype json =
    JNull
  | JBool bool
  | JInt int
  | JFloat real
  | JStr string
  | JArr "json list"
  | JObj "(string \<times> json) list"

type_synonym dict = "(string \<times> json) list"

definition dict_get :: "dict \<Rightarrow> string \<Rightarrow> json" where
  \<comment> \<open>\<^verbatim>\<open>d.get(k)\<close>: the value, \<^verbatim>\<open>None\<close> when the key is absent.\<close>
  "dict_get d k = (case map_of d k of None \<Rightarrow> JNull | Some v \<Rightarrow> v)"

definition get_default :: "('k \<times> 'v) list \<Rightarrow> 'k \<Rightarrow> 'v \<Rightarrow> 'v" where
  \<comment> \<open>\<^verbatim>\<open>d.get(k, default)\<close> on the module's constant tables.\<close>
  "get_default d k dflt = (case map_of d k of None \<Rightarrow> dflt | Some v \<Rightarrow> v)"

section \<open>Module constants\<close>

definition WINDOW_DURATIONS :: "(string \<times> int) list" where
  "WINDOW_DURATIONS =
     [(''five_hour'', 5 * 3600),
      (''seven_day'', 7 * 24 * 3600),
      (''seven_day_opus'', 7 * 24 * 3600),
      (''seven_day_sonnet'', 7 * 24 * 3600)]"

definition DISPLAY_NAMES :: "(string \<times> string) list" where
  "DISPLAY_NAMES =
     [(''five_hour'', ''Current session''),
      (''seven_day'', ''All models (7-day)''),
      (''seven_day_opus'', ''Opus only (7-day)''),
      (''seven_day_sonnet'', ''Sonnet only (7-day)'')]"

definition CATEGORY_ORDER :: "string list" where
  "CATEGORY_ORDER = [''five_hour'', ''seven_day'', ''seven_day_opus'', ''seven_day_sonnet'']"

definition REFRESH_FOCUSED :: real where
  "REFRESH_FOCUSED = 30"

definition REFRESH_UNFOCUSED :: real where
  "REFRESH_UNFOCUSED = 600"

section \<open>String helpers of the Python library\<close>

text \<open>
  \<^verbatim>\<open>str.replace("_", " ")\<close> and \<^verbatim>\<open>str.title()\<close>, on the ASCII letters: a letter
  that follows a letter is lower-cased, any other letter is upper-cased.
\<close>

definition is_lower :: "char \<Rightarrow> bool" where
  "is_lower c = (97 \<le> (of_char c :: nat) \<and> (of_char c :: nat) \<le> 122)"

definition is_upper :: "char \<Rightarrow> bool" where
  "is_upper c = (65 \<le> (of_char c :: nat) \<and> (of_char c :: nat) \<le> 90)"

definition to_upper :: "char \<Rightarrow> char" where
  "to_upper c = (if is_lower c then char_of ((of_char c :: nat) - 32) else c)"

definition to_lower :: "char \<Rightarrow> char" where
  "to_lower c = (if is_upper c then char_of ((of_char c :: nat) + 32) else c)"

fun title_from :: "bool \<Rightarrow> string \<Rightarrow> string" where
  "title_from prev_cased [] = []"
| "title_from prev_cased (c # cs) =
     (if is_lower c then (if prev_cased then c else to_upper c) # title_from True cs
      else if is_upper c then (if prev_cased then to_lower c else c) # title_from True cs
      else c # title_from False cs)"

definition title :: "string \<Rightarrow> string" where
  "title s = title_from False s"

definition replace_underscores :: "string \<Rightarrow> string" where
  "replace_underscores s = map (\<lambda>c. if c = CHR ''_'' then CHR '' '' else c) s"

section \<open>The category normalizer: \<^verbatim>\<open>parse_usage\<close>\<close>

text \<open>
  A category is the dict that \<^verbatim>\<open>parse_usage\<close> builds; the field \<open>cat_k\<close> is
  its entry \<^verbatim>\<open>"k"\<close>.
\<close>

record category =
  cat_key :: string
  cat_name :: string
  cat_utilization :: json
  cat_resets_at :: json
  cat_window_seconds :: int

text \<open>
  The first loop of \<^verbatim>\<open>parse_usage\<close>, over \<^verbatim>\<open>CATEGORY_ORDER\<close>. The accumulator is
  the pair of the local variables \<^verbatim>\<open>categories\<close> and \<^verbatim>\<open>seen\<close>.
\<close>

fun known_loop :: "dict \<Rightarrow> string list \<Rightarrow> category list \<times> string set \<Rightarrow> category list \<times> string set" where
  "known_loop data [] acc = acc"
| "known_loop data (k # ks) (categories, seen) =
     (case map_of data k of
        None \<Rightarrow> known_loop data ks (categories, seen)
      | Some entry \<Rightarrow>
          (case entry of
             JObj e \<Rightarrow>
               (let u = dict_get e ''utilization''; r = dict_get e ''resets_at''
                in if u = JNull \<and> r = JNull then known_loop data ks (categories, insert k seen)
                   else known_loop data ks
                     (categories @
                        [\<lparr>cat_key = k,
                          cat_name = get_default DISPLAY_NAMES k k,
                          cat_utilization = (if u = JNull then JFloat 0 else u),
                          cat_resets_at = r,
                          cat_window_seconds = get_default WINDOW_DURATIONS k (5 * 3600)\<rparr>],
                      insert k seen))
           | _ \<Rightarrow> known_loop data ks (categories, insert k seen)))"

text \<open>The second loop, over \<^verbatim>\<open>data.items()\<close>: the keys that are not in \<^verbatim>\<open>seen\<close>.\<close>

fun unknown_loop :: "string set \<Rightarrow> dict \<Rightarrow> category list \<Rightarrow> category list" where
  "unknown_loop seen [] categories = categories"
| "unknown_loop seen ((k, entry) # items) categories =
     (if k \<in> seen then unknown_loop seen items categories
      else case entry of
        JObj e \<Rightarrow>
          (let u = dict_get e ''utilization''; r = dict_get e ''resets_at''
           in if u = JNull \<and> r = JNull then unknown_loop seen items categories
              else unknown_loop seen items
                (categories @
                   [\<lparr>cat_key = k,
                     cat_name = get_default DISPLAY_NAMES k (title (replace_underscores k)),
                     cat_utilization = (if u = JNull then JFloat 0 else u),
                     cat_resets_at = r,
                     cat_window_seconds = get_default WINDOW_DURATIONS k (7 * 24 * 3600)\<rparr>]))
      | _ \<Rightarrow> unknown_loop seen items categories)"

definition parse_usage :: "dict \<Rightarrow> category list" where
  "parse_usage data =
     (case known_loop data CATEGORY_ORDER ([], {}) of
        (categories, seen) \<Rightarrow> unknown_loop seen data categories)"

text \<open>
  \<^verbatim>\<open>parse_usage\<close> is called on whatever \<^verbatim>\<open>json.loads\<close> returned. On a value that
  is not a dict it raises: \<^verbatim>\<open>key not in data\<close> is a TypeError on \<^verbatim>\<open>None\<close>, a bool
  or a number; on a list or a string the membership test works, a hit makes
  \<^verbatim>\<open>data[key]\<close> a TypeError, and without a hit \<^verbatim>\<open>data.items()\<close> is an
  AttributeError.
\<close>

datatype exn = TypeError | AttributeError | OverflowError | ValueError

fun contains :: "string \<Rightarrow> string \<Rightarrow> bool" where
  "contains [] k = (k = [])"
| "contains (c # cs) k = (take (length k) (c # cs) = k \<or> contains cs k)"

definition parse_usage_any :: "json \<Rightarrow> exn + category list" where
  "parse_usage_any data =
     (case data of
        JObj d \<Rightarrow> Inr (parse_usage d)
      | JArr xs \<Rightarrow>
          (if list_ex (\<lambda>k. JStr k \<in> set xs) CATEGORY_ORDER then Inl TypeError
           else Inl AttributeError)
      | JStr s \<Rightarrow>
          (if list_ex (\<lambda>k. contains s k) CATEGORY_ORDER then Inl TypeError
           else Inl AttributeError)
      | _ \<Rightarrow> Inl TypeError)"

section \<open>The glide slope: \<^verbatim>\<open>calc_glide_slope\<close>\<close>

definition truthy :: "json \<Rightarrow> bool" where
  \<comment> \<open>Python's truth value of a decoded JSON value.\<close>
  "truthy v =
     (case v of
        JNull \<Rightarrow> False
      | JBool b \<Rightarrow> b
      | JInt i \<Rightarrow> i \<noteq> 0
      | JFloat x \<Rightarrow> x \<noteq> 0
      | JStr s \<Rightarrow> s \<noteq> []
      | JArr xs \<Rightarrow> xs \<noteq> []
      | JObj d \<Rightarrow> d \<noteq> [])"

text \<open>
  \<^verbatim>\<open>datetime.fromisoformat\<close> is the standard library's. It is a parameter of the
  model, with the three outcomes the function can tell apart: a ValueError, a naive
  datetime (the string carries no UTC offset), or an aware datetime, given as the
  instant it denotes in seconds since the epoch. \<^verbatim>\<open>datetime.now(timezone.utc)\<close> is
  the parameter \<open>now\<close>, in the same unit.
\<close>

datatype parsed_time = Invalid_Format | Naive | Aware real

definition replace_Z :: "string \<Rightarrow> string" where
  \<comment> \<open>\<^verbatim>\<open>s.replace("Z", "+00:00")\<close>\<close>
  "replace_Z s = concat (map (\<lambda>c. if c = CHR ''Z'' then ''+00:00'' else [c]) s)"

definition calc_glide_slope ::
    "(string \<Rightarrow> parsed_time) \<Rightarrow> real \<Rightarrow> json \<Rightarrow> int \<Rightarrow> exn + real" where
  "calc_glide_slope fromisoformat now resets_at_str window_seconds =
     (if \<not> truthy resets_at_str then Inr 0
      else case resets_at_str of
        JStr s \<Rightarrow>
          (case fromisoformat (replace_Z s) of
             Invalid_Format \<Rightarrow> Inr 0
           | Naive \<Rightarrow> Inl TypeError
           | Aware resets_at \<Rightarrow>
               (let remaining = resets_at - now;
                    elapsed = real_of_int window_seconds - remaining
                in if window_seconds \<le> 0 then Inr 0
                   else let pct = elapsed / real_of_int window_seconds * 100
                        in Inr (max 0 (min 100 pct))))
      | _ \<Rightarrow> Inr 0)"

section \<open>Python numbers\<close>

text \<open>
  A Python \<^verbatim>\<open>float\<close> is an IEEE 754 double: a finite value, given as the rational
  number it is, an infinity, or a NaN. The two zeros are one value here (they compare
  equal, and \<^verbatim>\<open>round\<close> sends both to the integer 0). A percentage is a Python number:
  an \<^verbatim>\<open>int\<close> or a \<^verbatim>\<open>float\<close>.
\<close>

datatype pyfloat = Finite rat | PosInf | NegInf | NaN

datatype pynum = PInt int | PFloat pyfloat

definition pow2 :: "int \<Rightarrow> rat" where
  "pow2 e = (if 0 \<le> e then 2 ^ nat e else 1 / 2 ^ nat (- e))"

definition floor_log2 :: "rat \<Rightarrow> int" where
  \<comment> \<open>for \<open>x > 0\<close>: the \<open>e\<close> with \<open>2\<^sup>e \<le> x < 2\<^sup>e\<^sup>+\<^sup>1\<close>\<close>
  "floor_log2 x =
     (case quotient_of x of
        (p, q) \<Rightarrow> (let e = bitlen p - bitlen q in if pow2 e \<le> x then e else e - 1))"

definition round_half_even :: "rat \<Rightarrow> int" where
  \<comment> \<open>to the nearest integer, a tie to the even one\<close>
  "round_half_even x =
     (let f = \<lfloor>x\<rfloor>; d = x - of_int f
      in if d < 1 / 2 then f
         else if 1 / 2 < d then f + 1
         else if even f then f else f + 1)"

text \<open>
  The double nearest to a rational, a tie to the even significand: 53 bits of
  significand, the least exponent \<open>-1074\<close> for the last bit (the subnormal range), and
  an infinity from \<open>2\<^sup>1\<^sup>0\<^sup>2\<^sup>4\<close> on. It is what an arithmetic operation returns for
  its exact result.
\<close>

definition to_double :: "rat \<Rightarrow> pyfloat" where
  "to_double x =
     (if x = 0 then Finite 0
      else let e = floor_log2 \<bar>x\<bar>;
               q = max (e - 52) (- 1074);
               y = of_int (round_half_even (x / pow2 q)) * pow2 q
           in if pow2 1024 \<le> \<bar>y\<bar> then (if 0 < x then PosInf else NegInf) else Finite y)"

definition int_to_float :: "int \<Rightarrow> exn + pyfloat" where
  \<comment> \<open>the conversion of the \<^verbatim>\<open>int\<close> operand of \<^verbatim>\<open>float * int\<close>; it raises on an
      \<^verbatim>\<open>int\<close> too large for a \<^verbatim>\<open>float\<close>\<close>
  "int_to_float n =
     (case to_double (of_int n) of Finite y \<Rightarrow> Inr (Finite y) | _ \<Rightarrow> Inl OverflowError)"

definition float_sign :: "pyfloat \<Rightarrow> int" where
  "float_sign f =
     (case f of
        Finite x \<Rightarrow> (if 0 < x then 1 else if x < 0 then - 1 else 0)
      | PosInf \<Rightarrow> 1
      | NegInf \<Rightarrow> - 1
      | NaN \<Rightarrow> 0)"

definition float_mul :: "pyfloat \<Rightarrow> pyfloat \<Rightarrow> pyfloat" where
  \<comment> \<open>\<^verbatim>\<open>f * g\<close>: no exception, an overflow is an infinity\<close>
  "float_mul f g =
     (case (f, g) of
        (NaN, _) \<Rightarrow> NaN
      | (_, NaN) \<Rightarrow> NaN
      | (Finite a, Finite b) \<Rightarrow> to_double (a * b)
      | _ \<Rightarrow> (let s = float_sign f * float_sign g
              in if s = 0 then NaN else if 0 < s then PosInf else NegInf))"

definition div_100 :: "pynum \<Rightarrow> exn + pyfloat" where
  \<comment> \<open>\<^verbatim>\<open>pct / 100\<close>: the true division of two \<^verbatim>\<open>int\<close>s is correctly rounded and
      raises when the quotient is too large for a \<^verbatim>\<open>float\<close>\<close>
  "div_100 pct =
     (case pct of
        PInt a \<Rightarrow>
          (case to_double (of_int a / 100) of
             Finite y \<Rightarrow> Inr (Finite y)
           | _ \<Rightarrow> Inl OverflowError)
      | PFloat f \<Rightarrow> Inr (case f of Finite a \<Rightarrow> to_double (a / 100) | _ \<Rightarrow> f))"

definition float_round :: "pyfloat \<Rightarrow> exn + int" where
  \<comment> \<open>\<^verbatim>\<open>int(round(f))\<close>: \<^verbatim>\<open>round\<close> raises OverflowError on an infinity and ValueError
      on a NaN\<close>
  "float_round f =
     (case f of
        Finite y \<Rightarrow> Inr (round_half_even y)
      | NaN \<Rightarrow> Inl ValueError
      | _ \<Rightarrow> Inl OverflowError)"

definition scaled_pos :: "pynum \<Rightarrow> int \<Rightarrow> exn + int" where
  \<comment> \<open>\<^verbatim>\<open>int(round(pct / 100 * width))\<close>\<close>
  "scaled_pos pct width =
     (case div_100 pct of
        Inl e \<Rightarrow> Inl e
      | Inr f \<Rightarrow>
          (case int_to_float width of
             Inl e \<Rightarrow> Inl e
           | Inr w \<Rightarrow> float_round (float_mul f w)))"

definition num_value :: "pynum \<Rightarrow> pyfloat" where
  \<comment> \<open>the value a comparison sees: that of an \<^verbatim>\<open>int\<close> is exact\<close>
  "num_value n = (case n of PInt a \<Rightarrow> Finite (of_int a) | PFloat f \<Rightarrow> f)"

definition py_gt :: "pynum \<Rightarrow> pynum \<Rightarrow> bool" where
  \<comment> \<open>\<^verbatim>\<open>a > b\<close>; false when either is a NaN\<close>
  "py_gt a b =
     (case (num_value a, num_value b) of
        (NaN, _) \<Rightarrow> False
      | (_, NaN) \<Rightarrow> False
      | (Finite x, Finite y) \<Rightarrow> y < x
      | (PosInf, g) \<Rightarrow> g \<noteq> PosInf
      | (f, NegInf) \<Rightarrow> f \<noteq> NegInf
      | _ \<Rightarrow> False)"

section \<open>The bar renderer: \<^verbatim>\<open>draw_bar\<close>\<close>

text \<open>
  A cell's attribute is a colour pair, bold or not. \<^verbatim>\<open>draw_bar\<close> returns the calls
  \<^verbatim>\<open>win.addstr(y, x + i, char, attr)\<close> it makes, in order; the window drops a call
  that lands outside it (the \<^verbatim>\<open>curses.error\<close> is passed over). The exceptions of
  lines 230 and 232 are not caught: they leave the function before any call.
\<close>

datatype attr = Color_Pair nat | Color_Pair_Bold nat

type_synonym addstr = "int \<times> int \<times> char \<times> attr"

definition FILL_CHAR :: char where "FILL_CHAR = CHR '' ''"
definition EMPTY_CHAR :: char where "EMPTY_CHAR = CHR '' ''"
definition MARKER_CHAR :: char where "MARKER_CHAR = CHR ''|''"

definition usage_pos_of :: "int \<Rightarrow> pynum \<Rightarrow> exn + int" where
  \<comment> \<open>lines 230 and 231\<close>
  "usage_pos_of width usage_pct =
     (case scaled_pos usage_pct width of
        Inl e \<Rightarrow> Inl e
      | Inr usage_pos \<Rightarrow> Inr (max 0 (min width usage_pos)))"

definition glide_pos_of :: "int \<Rightarrow> pynum \<Rightarrow> exn + int" where
  \<comment> \<open>lines 232 and 233\<close>
  "glide_pos_of width glide_pct =
     (case scaled_pos glide_pct width of
        Inl e \<Rightarrow> Inl e
      | Inr glide_pos \<Rightarrow> Inr (max 0 (min (width - 1) glide_pos)))"

definition bar_cell :: "int \<Rightarrow> int \<Rightarrow> pynum \<Rightarrow> pynum \<Rightarrow> int \<Rightarrow> char \<times> attr" where
  \<comment> \<open>the body of the loop after its two \<^verbatim>\<open>break\<close>s\<close>
  "bar_cell usage_pos glide_pos usage_pct glide_pct i =
     (let is_marker = (i = glide_pos); is_filled = (i < usage_pos)
      in if is_marker then
           (if py_gt usage_pct glide_pct then (MARKER_CHAR, Color_Pair_Bold 4)
            else (MARKER_CHAR, Color_Pair_Bold 8))
         else if is_filled then
           (if py_gt usage_pct glide_pct \<and> i \<ge> glide_pos then (FILL_CHAR, Color_Pair 2)
            else (FILL_CHAR, Color_Pair 1))
         else (EMPTY_CHAR, Color_Pair 3))"

definition draw_bar ::
    "int \<Rightarrow> int \<Rightarrow> int \<Rightarrow> int \<Rightarrow> int \<Rightarrow> pynum \<Rightarrow> pynum \<Rightarrow> exn + addstr list" where
  \<comment> \<open>\<open>max_h\<close> and \<open>max_w\<close> are what \<^verbatim>\<open>win.getmaxyx()\<close> returns\<close>
  "draw_bar max_h max_w y x width usage_pct glide_pct =
     (if width < 3 then Inr []
      else if y \<ge> max_h then Inr []
      else let avail = max_w - x
           in if avail < 3 then Inr []
              else let width = min width avail
                   in case usage_pos_of width usage_pct of
                        Inl e \<Rightarrow> Inl e
                      | Inr usage_pos \<Rightarrow>
                          (case glide_pos_of width glide_pct of
                             Inl e \<Rightarrow> Inl e
                           | Inr glide_pos \<Rightarrow>
                               Inr (map (\<lambda>i. (y, x + i,
                                           bar_cell usage_pos glide_pos usage_pct glide_pct i))
                                     (takeWhile
                                        (\<lambda>i. \<not> i \<ge> avail
                                             \<and> \<not> (y = max_h - 1 \<and> x + i = max_w - 1))
                                        [0..width - 1]))))"

section \<open>The collaborators: \<^verbatim>\<open>get_access_token\<close> and \<^verbatim>\<open>fetch_usage\<close>\<close>

text \<open>
  What \<^verbatim>\<open>subprocess.run\<close> did: it raised FileNotFoundError, TimeoutExpired or
  another exception (with its text), or it completed with a return code, stdout and
  stderr. \<^verbatim>\<open>json.loads\<close> is a parameter; \<open>None\<close> is its JSONDecodeError.
\<close>

datatype security_run =
    File_Not_Found
  | Timeout_Expired
  | Other_Exception string
  | Completed int string string

definition is_space :: "char \<Rightarrow> bool" where
  "is_space c =
     (let n = (of_char c :: nat)
      in (9 \<le> n \<and> n \<le> 13) \<or> (28 \<le> n \<and> n \<le> 32) \<or> n = 133 \<or> n = 160)"

definition strip :: "string \<Rightarrow> string" where
  "strip s = rev (dropWhile is_space (rev (dropWhile is_space s)))"

definition type_name :: "json \<Rightarrow> string" where
  "type_name v =
     (case v of
        JNull \<Rightarrow> ''NoneType''
      | JBool _ \<Rightarrow> ''bool''
      | JInt _ \<Rightarrow> ''int''
      | JFloat _ \<Rightarrow> ''float''
      | JStr _ \<Rightarrow> ''str''
      | JArr _ \<Rightarrow> ''list''
      | JObj _ \<Rightarrow> ''dict'')"

definition no_get :: "json \<Rightarrow> string" where
  \<comment> \<open>the text of the AttributeError of \<^verbatim>\<open>v.get\<close> on a value that is not a dict\<close>
  "no_get v = [CHR 0x27] @ type_name v @ [CHR 0x27] @ '' object has no attribute ''
                @ [CHR 0x27] @ ''get'' @ [CHR 0x27]"

definition get_access_token ::
    "(string \<Rightarrow> json option) \<Rightarrow> security_run \<Rightarrow> json \<times> string option" where
  "get_access_token json_loads result =
     (case result of
        File_Not_Found \<Rightarrow>
          (JNull, Some ([CHR 0x27] @ ''security'' @ [CHR 0x27] @ '' command not found (macOS only)''))
      | Timeout_Expired \<Rightarrow> (JNull, Some ''Keychain access timed out'')
      | Other_Exception e \<Rightarrow> (JNull, Some (''Keychain error: '' @ e))
      | Completed returncode stdout stderr \<Rightarrow>
          (if returncode \<noteq> 0 then (JNull, Some (''Failed to read keychain: '' @ strip stderr))
           else case json_loads (strip stdout) of
             None \<Rightarrow> (JNull, Some ''Failed to parse keychain credentials as JSON'')
           | Some creds \<Rightarrow>
               (case creds of
                  JObj c \<Rightarrow>
                    (case get_default c ''claudeAiOauth'' (JObj []) of
                       JObj oauth \<Rightarrow>
                         (let token = dict_get oauth ''accessToken''
                          in if \<not> truthy token
                             then (JNull, Some ''No accessToken found in keychain credentials'')
                             else (token, None))
                     | v \<Rightarrow> (JNull, Some (''Keychain error: '' @ no_get v)))
                | v \<Rightarrow> (JNull, Some (''Keychain error: '' @ no_get v)))))"

text \<open>
  What the request did: \<^verbatim>\<open>urlopen\<close> raised an HTTPError (code and reason) or a
  URLError (reason), something else raised inside the \<^verbatim>\<open>try\<close> (reading, decoding
  and \<^verbatim>\<open>json.loads\<close> included), or a decoded value came back.
\<close>

datatype urlopen_result =
    HTTP_Error int string
  | URL_Error string
  | Fetch_Exception string
  | Response json

fun str_nat :: "nat \<Rightarrow> string" where
  "str_nat n =
     (if n < 10 then [char_of (48 + n)]
      else str_nat (n div 10) @ [char_of (48 + n mod 10)])"

definition str_int :: "int \<Rightarrow> string" where
  "str_int i = (if i < 0 then ''-'' @ str_nat (nat (- i)) else str_nat (nat i))"

definition fetch_usage :: "json \<Rightarrow> urlopen_result \<Rightarrow> json \<times> string option" where
  "fetch_usage token result =
     (case result of
        Response data \<Rightarrow> (data, None)
      | HTTP_Error code reason \<Rightarrow> (JNull, Some (''API error: '' @ str_int code @ '' '' @ reason))
      | URL_Error reason \<Rightarrow> (JNull, Some (''Network error: '' @ reason))
      | Fetch_Exception e \<Rightarrow> (JNull, Some (''Fetch error: '' @ e)))"

section \<open>The dashboard loop: \<^verbatim>\<open>main\<close>\<close>

text \<open>The local variables of \<^verbatim>\<open>main\<close> that the loop and \<^verbatim>\<open>do_fetch\<close> write.\<close>

record loop_state =
  has_focus :: bool
  categories :: "category list"
  last_fetch_time :: "real option"
  last_fetch_attempt :: real
  error_msg :: "string option"
  escape_buf :: "int list"
  escape_time :: real

definition initial_state :: loop_state where
  "initial_state =
     \<lparr>has_focus = True, categories = [], last_fetch_time = None, last_fetch_attempt = 0,
      error_msg = None, escape_buf = [], escape_time = 0\<rparr>"

text \<open>
  What one call of \<^verbatim>\<open>do_fetch\<close> meets outside the program: the clock at line 385,
  the keychain, the endpoint, and the clock at line 396.
\<close>

record fetch_env =
  attempt_clock :: real
  json_loads :: "string \<Rightarrow> json option"
  security :: security_run
  urlopen :: urlopen_result
  success_clock :: real

definition is_set :: "string option \<Rightarrow> bool" where
  \<comment> \<open>the truth value of \<^verbatim>\<open>err\<close> and of \<^verbatim>\<open>error_msg\<close>: not \<^verbatim>\<open>None\<close> and not empty\<close>
  "is_set err = (case err of None \<Rightarrow> False | Some e \<Rightarrow> e \<noteq> [])"

definition do_fetch :: "fetch_env \<Rightarrow> loop_state \<Rightarrow> exn + loop_state" where
  "do_fetch env s =
     (let s = s\<lparr>last_fetch_attempt := attempt_clock env\<rparr>
      in case get_access_token (json_loads env) (security env) of
        (token, err) \<Rightarrow>
          if is_set err then Inr (s\<lparr>error_msg := err\<rparr>)
          else case fetch_usage token (urlopen env) of
            (data, err) \<Rightarrow>
              if is_set err then Inr (s\<lparr>error_msg := err\<rparr>)
              else let s = s\<lparr>error_msg := None\<rparr>
                   in case parse_usage_any data of
                        Inl e \<Rightarrow> Inl e
                      | Inr cats \<Rightarrow>
                          Inr (s\<lparr>categories := cats,
                                 last_fetch_time := Some (success_clock env)\<rparr>))"

text \<open>
  One iteration of the loop, from \<^verbatim>\<open>getch\<close> on (drawing reads the variables and
  writes none). Its inputs: the key read (\<open>-1\<close> when the second ran out), the three
  clock readings of lines 411, 433 and 437, and what each of the two possible calls
  of \<^verbatim>\<open>do_fetch\<close> would meet.
\<close>

record tick =
  ch :: int
  key_clock :: real
  manual_env :: fetch_env
  stale_clock :: real
  now_clock :: real
  refresh_env :: fetch_env

datatype result = Next loop_state | Quit | Raise exn

definition KEY_RESIZE :: int where "KEY_RESIZE = 410"

definition handle_key :: "int \<Rightarrow> real \<Rightarrow> fetch_env \<Rightarrow> loop_state \<Rightarrow> result" where
  \<comment> \<open>lines 409 to 430\<close>
  "handle_key c clock env s =
     (if c = 27 then Next (s\<lparr>escape_buf := [27], escape_time := clock\<rparr>)
      else if escape_buf s \<noteq> [] then
        (let buf = escape_buf s @ [c]
         in if length buf = 2 \<and> buf ! 0 = 27 \<and> c = 91 then Next (s\<lparr>escape_buf := buf\<rparr>)
            else if length buf = 3 \<and> buf ! 0 = 27 \<and> buf ! 1 = 91 then
              (if c = 73 then Next (s\<lparr>has_focus := True, escape_buf := []\<rparr>)
               else if c = 79 then Next (s\<lparr>has_focus := False, escape_buf := []\<rparr>)
               else Next (s\<lparr>escape_buf := []\<rparr>))
            else Next (s\<lparr>escape_buf := []\<rparr>))
      else if c = 113 \<or> c = 81 then Quit
      else if c = 114 \<or> c = 82 then
        (case do_fetch env s of Inl e \<Rightarrow> Raise e | Inr s' \<Rightarrow> Next s')
      else if c = KEY_RESIZE then Next s
      else Next s)"

definition clear_stale :: "real \<Rightarrow> loop_state \<Rightarrow> loop_state" where
  \<comment> \<open>lines 433 and 434\<close>
  "clear_stale clock s =
     (if escape_buf s \<noteq> [] \<and> clock - escape_time s > 1 / 2 then s\<lparr>escape_buf := []\<rparr>
      else s)"

definition refresh_check :: "real \<Rightarrow> fetch_env \<Rightarrow> loop_state \<Rightarrow> result" where
  \<comment> \<open>lines 437 to 444\<close>
  "refresh_check now env s =
     (case last_fetch_time s of
        Some t \<Rightarrow>
          (let interval = (if has_focus s then REFRESH_FOCUSED else REFRESH_UNFOCUSED)
           in if now - t \<ge> interval
              then (case do_fetch env s of Inl e \<Rightarrow> Raise e | Inr s' \<Rightarrow> Next s')
              else Next s)
      | None \<Rightarrow>
          (if is_set (error_msg s) \<and> now - last_fetch_attempt s \<ge> 10
           then (case do_fetch env s of Inl e \<Rightarrow> Raise e | Inr s' \<Rightarrow> Next s')
           else Next s))"

definition loop_body :: "tick \<Rightarrow> loop_state \<Rightarrow> result" where
  "loop_body t s =
     (case handle_key (ch t) (key_clock t) (manual_env t) s of
        Next s1 \<Rightarrow> refresh_check (now_clock t) (refresh_env t) (clear_stale (stale_clock t) s1)
      | Quit \<Rightarrow> Quit
      | Raise e \<Rightarrow> Raise e)"

text \<open>
  \<^verbatim>\<open>while True\<close> over the keys and clock readings that arrive: the run of a finite
  prefix of them, in which every \<^verbatim>\<open>draw_ui\<close> returns. It stops at the first
  \<^verbatim>\<open>break\<close> or exception that \<^verbatim>\<open>do_fetch\<close> lets through.
\<close>

fun run :: "tick list \<Rightarrow> loop_state \<Rightarrow> result" where
  "run [] s = Next s"
| "run (t # ts) s =
     (case loop_body t s of
        Next s' \<Rightarrow> run ts s'
      | Quit \<Rightarrow> Quit
      | Raise e \<Rightarrow> Raise e)"

text \<open>
  The states of the loop: \<^verbatim>\<open>main\<close> calls \<^verbatim>\<open>do_fetch\<close> once on the initial values,
  then every iteration that neither breaks nor raises gives the next state.
\<close>

inductive reachable :: "loop_state \<Rightarrow> bool" where
  initial: "do_fetch env initial_state = Inr s \<Longrightarrow> reachable s"
| step: "reachable s \<Longrightarrow> loop_body t s = Next s' \<Longrightarrow> reachable s'"

section \<open>Predicates used in the statements\<close>

text \<open>
  A category carries the utilization of the payload's entry of its key, unchanged, and
  \<open>0.0\<close> where the entry has none.
\<close>

definition raw_utilization :: "dict \<Rightarrow> category \<Rightarrow> bool" where
  "raw_utilization data c =
     (\<exists>e. (cat_key c, JObj e) \<in> set data \<and>
          cat_utilization c =
            (if dict_get e ''utilization'' = JNull then JFloat 0
             else dict_get e ''utilization''))"

text \<open>
  The calls of \<^verbatim>\<open>draw_bar\<close>, read as cells of the bar: the cell's index, whether it
  is the marker, and whether it is filled (blue or yellow) or filled over the glide
  slope (yellow). \<open>bar_width\<close> is the width the bar is drawn with.
\<close>

definition call_index :: "int \<Rightarrow> addstr \<Rightarrow> int" where
  \<comment> \<open>the cell \<open>i\<close> of the call \<^verbatim>\<open>win.addstr(y, x + i, ...)\<close>\<close>
  "call_index x call = fst (snd call) - x"

definition is_marker_call :: "addstr \<Rightarrow> bool" where
  "is_marker_call call = (fst (snd (snd call)) = MARKER_CHAR)"

definition is_filled_call :: "addstr \<Rightarrow> bool" where
  \<comment> \<open>blue (pair 1) or yellow (pair 2)\<close>
  "is_filled_call call =
     (snd (snd (snd call)) = Color_Pair 1 \<or> snd (snd (snd call)) = Color_Pair 2)"

definition is_filled_over_call :: "addstr \<Rightarrow> bool" where
  \<comment> \<open>yellow (pair 2)\<close>
  "is_filled_over_call call = (snd (snd (snd call)) = Color_Pair 2)"

definition bar_width :: "int \<Rightarrow> int \<Rightarrow> int \<Rightarrow> int" where
  \<comment> \<open>\<^verbatim>\<open>width\<close> from line 228 on\<close>
  "bar_width max_w x width = min width (max_w - x)"

text \<open>
  The endpoint's answer, when there is one, decodes to a mapping, as the interface of
  the fetch collaborator has it. \<^verbatim>\<open>do_fetch\<close> then returns; on any other decoded
  value \<^verbatim>\<open>parse_usage\<close> raises.
\<close>

definition mapping_payload :: "fetch_env \<Rightarrow> bool" where
  "mapping_payload env =
     (case urlopen env of
        Response data \<Rightarrow> (case data of JObj d \<Rightarrow> True | _ \<Rightarrow> False)
      | _ \<Rightarrow> True)"

text \<open>A fetch has succeeded, or an error message is set.\<close>

definition fetched_or_failed :: "loop_state \<Rightarrow> bool" where
  "fetched_or_failed s = (last_fetch_time s \<noteq> None \<or> is_set (error_msg s))"

text \<open>
  The scheduler's rule in the specification's words: after a success, the interval
  (30 seconds with the focus, 600 without) has passed since it; with no success and
  an error set, 10 seconds have passed since the last attempt.
\<close>

definition refresh_due :: "loop_state \<Rightarrow> real \<Rightarrow> bool" where
  "refresh_due s now =
     ((last_fetch_time s \<noteq> None
         \<and> now - the (last_fetch_time s) \<ge> (if has_focus s then 30 else 600))
      \<or> (last_fetch_time s = None \<and> is_set (error_msg s)
           \<and> now - last_fetch_attempt s \<ge> 10))"

section \<open>Example inputs\<close>

text \<open>
  A machine without the \<^verbatim>\<open>security\<close> command; a key read at a time \<open>t\<close>, with the
  three clock readings of its iteration equal to \<open>t\<close>; a state after a successful
  fetch at time \<open>t\<close>, with or without the focus; and a keychain that holds a token.
\<close>

definition no_keychain :: fetch_env where
  "no_keychain =
     \<lparr>attempt_clock = 0, json_loads = (\<lambda>_. None), security = File_Not_Found,
      urlopen = URL_Error ''unreachable'', success_clock = 0\<rparr>"

definition key_at :: "int \<Rightarrow> real \<Rightarrow> tick" where
  "key_at c t =
     \<lparr>ch = c, key_clock = t, manual_env = no_keychain, stale_clock = t, now_clock = t,
      refresh_env = no_keychain\<rparr>"

definition fetched_at :: "bool \<Rightarrow> real \<Rightarrow> loop_state" where
  "fetched_at focus t =
     \<lparr>has_focus = focus, categories = [], last_fetch_time = Some t, last_fetch_attempt = t,
      error_msg = None, escape_buf = [], escape_time = 0\<rparr>"

definition with_token :: "urlopen_result \<Rightarrow> fetch_env" where
  "with_token answer =
     \<lparr>attempt_clock = 100,
      json_loads = (\<lambda>s. if s = ''{}'' then Some (JObj [(''claudeAiOauth'',
                      JObj [(''accessToken'', JStr ''token'')])]) else None),
      security = Completed 0 ''{} '' [],
      urlopen = answer, success_clock = 101\<rparr>"

section \<open>Properties of the category normalizer\<close>

lemma known_loop_raw:
  "\<forall>c \<in> set (fst acc). raw_utilization data c \<Longrightarrow>
   \<forall>c \<in> set (fst (known_loop data ks acc)). raw_utilization data c"
proof (induction ks arbitrary: acc)
  case Nil
  then show ?case by simp
next
  case (Cons k ks)
  obtain cats seen where acc: "acc = (cats, seen)"
    by (cases acc)
  show ?case
  proof (cases "map_of data k")
    case None
    with Cons.IH [of "(cats, seen)"] Cons.prems acc show ?thesis by simp
  next
    case (Some entry)
    then have mem: "(k, entry) \<in> set data"
      by (rule map_of_SomeD)
    show ?thesis
    proof (cases entry)
      case (JObj e)
      let ?u = "dict_get e ''utilization''" and ?r = "dict_get e ''resets_at''"
      show ?thesis
      proof (cases "?u = JNull \<and> ?r = JNull")
        case True
        with Cons.IH [of "(cats, insert k seen)"] Cons.prems acc Some JObj
        show ?thesis by simp
      next
        case False
        let ?c = "\<lparr>cat_key = k, cat_name = get_default DISPLAY_NAMES k k,
                    cat_utilization = (if ?u = JNull then JFloat 0 else ?u),
                    cat_resets_at = ?r,
                    cat_window_seconds = get_default WINDOW_DURATIONS k (5 * 3600)\<rparr>"
        have "raw_utilization data ?c"
          unfolding raw_utilization_def using mem JObj by auto
        with Cons.prems acc
        have "\<forall>c \<in> set (fst (cats @ [?c], insert k seen)). raw_utilization data c"
          by auto
        from Cons.IH [OF this] acc Some JObj False show ?thesis
          by (auto simp: Let_def)
      qed
    qed (use Cons.IH [of "(cats, insert k seen)"] Cons.prems acc Some in simp_all)
  qed
qed

lemma unknown_loop_raw:
  "set items \<subseteq> set data \<Longrightarrow> \<forall>c \<in> set cats. raw_utilization data c \<Longrightarrow>
   \<forall>c \<in> set (unknown_loop seen items cats). raw_utilization data c"
proof (induction items arbitrary: cats)
  case Nil
  then show ?case by simp
next
  case (Cons item items)
  obtain k entry where item: "item = (k, entry)"
    by (cases item)
  from Cons.prems item have mem: "(k, entry) \<in> set data" and sub: "set items \<subseteq> set data"
    by auto
  show ?case
  proof (cases "k \<in> seen")
    case True
    with Cons.IH [OF sub Cons.prems(2)] item show ?thesis by simp
  next
    case unseen: False
    show ?thesis
    proof (cases entry)
      case (JObj e)
      let ?u = "dict_get e ''utilization''" and ?r = "dict_get e ''resets_at''"
      show ?thesis
      proof (cases "?u = JNull \<and> ?r = JNull")
        case True
        with Cons.IH [OF sub Cons.prems(2)] item unseen JObj show ?thesis by simp
      next
        case False
        let ?c = "\<lparr>cat_key = k,
                    cat_name = get_default DISPLAY_NAMES k (title (replace_underscores k)),
                    cat_utilization = (if ?u = JNull then JFloat 0 else ?u),
                    cat_resets_at = ?r,
                    cat_window_seconds = get_default WINDOW_DURATIONS k (7 * 24 * 3600)\<rparr>"
        have "raw_utilization data ?c"
          unfolding raw_utilization_def using mem JObj by auto
        with Cons.prems(2) have "\<forall>c \<in> set (cats @ [?c]). raw_utilization data c"
          by auto
        from Cons.IH [OF sub this] item unseen JObj False show ?thesis
          by (auto simp: Let_def)
      qed
    qed (use Cons.IH [OF sub Cons.prems(2)] item unseen in simp_all)
  qed
qed

text \<open>
  C1, as the program has it. \<^verbatim>\<open>parse_usage\<close> does not clamp: the utilization of every
  category it returns is the \<^verbatim>\<open>utilization\<close> of the payload's entry of that key, as
  it came, and \<open>0.0\<close> when the entry has none.
\<close>

theorem parse_usage_utilization_unclamped:
  "\<forall>c \<in> set (parse_usage data).
     \<exists>e. (cat_key c, JObj e) \<in> set data \<and>
         cat_utilization c =
           (if dict_get e ''utilization'' = JNull then JFloat 0
            else dict_get e ''utilization'')"
proof -
  obtain cats seen where k: "known_loop data CATEGORY_ORDER ([], {}) = (cats, seen)"
    by (cases "known_loop data CATEGORY_ORDER ([], {})")
  have "\<forall>c \<in> set (fst (known_loop data CATEGORY_ORDER ([], {}))). raw_utilization data c"
    by (rule known_loop_raw) simp
  with k have "\<forall>c \<in> set cats. raw_utilization data c"
    by simp
  then have "\<forall>c \<in> set (unknown_loop seen data cats). raw_utilization data c"
    by (rule unknown_loop_raw [OF subset_refl])
  with k show ?thesis
    by (simp add: parse_usage_def raw_utilization_def)
qed

theorem parse_usage_utilization_unclamped_witness:
  "parse_usage [(''five_hour'', JObj [(''utilization'', JFloat 150)]),
                (''extra_usage'', JObj [(''resets_at'', JStr ''2026-01-01T00:00:00+00:00'')])] =
     [\<lparr>cat_key = ''five_hour'', cat_name = ''Current session'',
       cat_utilization = JFloat 150, cat_resets_at = JNull, cat_window_seconds = 18000\<rparr>,
      \<lparr>cat_key = ''extra_usage'', cat_name = ''Extra Usage'',
       cat_utilization = JFloat 0,
       cat_resets_at = JStr ''2026-01-01T00:00:00+00:00'', cat_window_seconds = 604800\<rparr>]
   \<and> (\<exists>e. (''five_hour'', JObj e) \<in>
             set [(''five_hour'', JObj [(''utilization'', JFloat 150)]),
                  (''extra_usage'', JObj [(''resets_at'', JStr ''2026-01-01T00:00:00+00:00'')])] \<and>
           JFloat 150 =
             (if dict_get e ''utilization'' = JNull then JFloat 0
              else dict_get e ''utilization''))"
proof -
  let ?data = "[(''five_hour'', JObj [(''utilization'', JFloat 150)]),
                (''extra_usage'', JObj [(''resets_at'', JStr ''2026-01-01T00:00:00+00:00'')])]"
  let ?c = "\<lparr>cat_key = ''five_hour'', cat_name = ''Current session'',
       cat_utilization = JFloat 150, cat_resets_at = JNull, cat_window_seconds = 18000\<rparr>"
  have run: "parse_usage ?data =
     [?c,
      \<lparr>cat_key = ''extra_usage'', cat_name = ''Extra Usage'',
       cat_utilization = JFloat 0,
       cat_resets_at = JStr ''2026-01-01T00:00:00+00:00'', cat_window_seconds = 604800\<rparr>]"
    by code_simp
  then have "?c \<in> set (parse_usage ?data)"
    by simp
  with parse_usage_utilization_unclamped [of ?data]
  have "\<exists>e. (cat_key ?c, JObj e) \<in> set ?data \<and>
         cat_utilization ?c =
           (if dict_get e ''utilization'' = JNull then JFloat 0
            else dict_get e ''utilization'')"
    by blast
  with run show ?thesis by simp
qed

text \<open>
  C1 as the specification states it fails: a utilization of 150 in the payload is the
  utilization of the category, and 150 is not in the range from 0 to 100.
\<close>

theorem parse_usage_clamp_counterexample:
  "map cat_utilization (parse_usage [(''five_hour'', JObj [(''utilization'', JFloat 150)])])
     = [JFloat 150] \<and> \<not> (150::real) \<le> 100"
  by (simp add: parse_usage_def CATEGORY_ORDER_def dict_get_def)

section \<open>Properties of the Python numbers\<close>

lemma round_half_even_of_int: "round_half_even (of_int m) = m"
  by (simp add: round_half_even_def)

lemma pow2_pos: "0 < pow2 e"
  by (simp add: pow2_def)

lemma pow2_neg: "0 \<le> k \<Longrightarrow> pow2 (- k) = 1 / 2 ^ nat k"
  by (simp add: pow2_def)

lemma floor_log2_of_int:
  assumes "0 < a"
  shows "floor_log2 (of_int a) = bitlen a - 1"
proof -
  from assms have len: "1 \<le> bitlen a"
    by (simp add: bitlen_alt_def)
  have one: "bitlen 1 = 1"
    by (simp add: bitlen_alt_def)
  from bitlen_bounds [OF assms] have "2 ^ nat (bitlen a - 1) \<le> a"
    by simp
  then have "(of_int (2 ^ nat (bitlen a - 1)) :: rat) \<le> of_int a"
    by (simp only: of_int_le_iff)
  then have "pow2 (bitlen a - 1) \<le> of_int a"
    using len by (simp add: pow2_def)
  then show ?thesis
    by (simp add: floor_log2_def one)
qed

lemma to_double_of_int:
  assumes "\<bar>n\<bar> < 2 ^ 53"
  shows "to_double (of_int n) = Finite (of_int n)"
proof (cases "n = 0")
  case True
  then show ?thesis by (simp add: to_double_def)
next
  case False
  define a where "a = \<bar>n\<bar>"
  define k where "k = 53 - bitlen a"
  from False have pos: "0 < a"
    by (simp add: a_def)
  then have lo: "1 \<le> bitlen a"
    by (simp add: bitlen_alt_def)
  from assms have "a < 2 ^ nat 53"
    by (simp add: a_def)
  then have hi: "bitlen a \<le> 53"
    by (simp add: bitlen_le_iff_power)
  have abs: "\<bar>of_int n :: rat\<bar> = of_int a"
    by (simp add: a_def)
  have e: "floor_log2 \<bar>of_int n :: rat\<bar> = bitlen a - 1"
    unfolding abs by (rule floor_log2_of_int [OF pos])
  have q: "max (bitlen a - 1 - 52) (- 1074) = - k"
    using lo hi by (simp add: k_def)
  have k0: "0 \<le> k"
    using hi by (simp add: k_def)
  have scaled: "(of_int n :: rat) / pow2 (- k) = of_int (n * 2 ^ nat k)"
    using k0 by (simp add: pow2_neg)
  have unscaled: "(of_int (n * 2 ^ nat k) :: rat) * pow2 (- k) = of_int n"
    using k0 by (simp add: pow2_neg)
  have "\<bar>of_int n :: rat\<bar> < of_int (2 ^ 53)"
    using assms by (simp only: abs a_def of_int_less_iff)
  also have "(of_int (2 ^ 53) :: rat) \<le> pow2 1024"
    by (simp add: pow2_def)
  finally have small: "\<not> pow2 1024 \<le> \<bar>of_int n :: rat\<bar>"
    by simp
  show ?thesis
    unfolding to_double_def Let_def e q scaled round_half_even_of_int unscaled
    using False small by simp
qed

lemma scaled_pos_100:
  assumes "\<bar>width\<bar> < 2 ^ 53"
  shows "scaled_pos (PInt 100) width = Inr width"
    and "scaled_pos (PFloat (Finite 100)) width = Inr width"
proof -
  have one: "to_double 1 = Finite 1"
    using to_double_of_int [of 1] by simp
  have w: "to_double (of_int width) = Finite (of_int width)"
    using assms by (rule to_double_of_int)
  show "scaled_pos (PInt 100) width = Inr width"
    by (simp add: scaled_pos_def div_100_def one int_to_float_def w float_mul_def float_round_def
        round_half_even_of_int)
  show "scaled_pos (PFloat (Finite 100)) width = Inr width"
    by (simp add: scaled_pos_def div_100_def one int_to_float_def w float_mul_def float_round_def
        round_half_even_of_int)
qed

lemma scaled_pos_0:
  assumes "\<bar>width\<bar> < 2 ^ 53"
  shows "scaled_pos (PInt 0) width = Inr 0"
    and "scaled_pos (PFloat (Finite 0)) width = Inr 0"
proof -
  have zero: "to_double 0 = Finite 0"
    by (simp add: to_double_def)
  have w: "to_double (of_int width) = Finite (of_int width)"
    using assms by (rule to_double_of_int)
  show "scaled_pos (PInt 0) width = Inr 0"
    by (simp add: scaled_pos_def div_100_def zero int_to_float_def w float_mul_def float_round_def
        round_half_even_def)
  show "scaled_pos (PFloat (Finite 0)) width = Inr 0"
    by (simp add: scaled_pos_def div_100_def zero int_to_float_def w float_mul_def float_round_def
        round_half_even_def)
qed

lemma scaled_pos_error:
  assumes "scaled_pos pct width = Inl e"
  shows "e = OverflowError \<or> e = ValueError"
  using assms
  by (auto simp: scaled_pos_def div_100_def int_to_float_def float_round_def
      split: sum.splits pynum.splits pyfloat.splits)

lemma pow2_powi: "pow2 e = 2 powi e"
  by (simp add: pow2_def power_int_def inverse_eq_divide power_one_over)

lemma pow2_add: "pow2 (a + b) = pow2 a * pow2 b"
  by (simp add: pow2_powi power_int_add)

lemma pow2_mono: "a \<le> b \<Longrightarrow> pow2 a \<le> pow2 b"
  by (simp add: pow2_powi power_int_increasing)

lemma pow2_less_cancel: "pow2 a < pow2 b \<Longrightarrow> a < b"
  using pow2_mono [of b a] by (cases "a < b") auto

lemma floor_log2_bounds:
  assumes "0 < x"
  shows "pow2 (floor_log2 x) \<le> x \<and> x < pow2 (floor_log2 x + 1)"
proof -
  obtain p q where pq: "quotient_of x = (p, q)"
    by (cases "quotient_of x")
  then have q: "0 < q" and x: "x = of_int p / of_int q"
    by (simp_all add: quotient_of_denom_pos quotient_of_div)
  with assms have p: "0 < p"
    by (simp add: zero_less_divide_iff)
  let ?e = "bitlen p - bitlen q"
  from p q have lens: "1 \<le> bitlen p" "1 \<le> bitlen q"
    by (simp_all add: bitlen_alt_def)
  from bitlen_bounds [OF p] have "2 ^ nat (bitlen p - 1) \<le> p" "p < 2 ^ nat (bitlen p)"
    by simp_all
  then have "(of_int (2 ^ nat (bitlen p - 1)) :: rat) \<le> of_int p"
      "(of_int p :: rat) < of_int (2 ^ nat (bitlen p))"
    by (simp_all only: of_int_le_iff of_int_less_iff)
  with lens have pb: "pow2 (bitlen p - 1) \<le> of_int p" "of_int p < pow2 (bitlen p)"
    by (simp_all add: pow2_def)
  from bitlen_bounds [OF q] have "2 ^ nat (bitlen q - 1) \<le> q" "q < 2 ^ nat (bitlen q)"
    by simp_all
  then have "(of_int (2 ^ nat (bitlen q - 1)) :: rat) \<le> of_int q"
      "(of_int q :: rat) < of_int (2 ^ nat (bitlen q))"
    by (simp_all only: of_int_le_iff of_int_less_iff)
  with lens have qb: "pow2 (bitlen q - 1) \<le> of_int q" "of_int q < pow2 (bitlen q)"
    by (simp_all add: pow2_def)
  have qpos: "(0::rat) < of_int q"
    using q by simp
  have "x * of_int q < pow2 (bitlen p)"
    using pb(2) qpos by (simp add: x)
  also have "pow2 (bitlen p) = pow2 (?e + 1) * pow2 (bitlen q - 1)"
    by (simp add: pow2_add [symmetric])
  also have "\<dots> \<le> pow2 (?e + 1) * of_int q"
    using qb(1) pow2_pos [of "?e + 1"] by (simp add: mult_left_mono)
  finally have upper: "x < pow2 (?e + 1)"
    using qpos by simp
  have "pow2 (?e - 1) * of_int q \<le> pow2 (?e - 1) * pow2 (bitlen q)"
    using qb(2) pow2_pos [of "?e - 1"] by (simp add: mult_left_mono)
  also have "\<dots> = pow2 (bitlen p - 1)"
    by (simp add: pow2_add [symmetric])
  also have "\<dots> \<le> x * of_int q"
    using pb(1) qpos by (simp add: x)
  finally have lower: "pow2 (?e - 1) \<le> x"
    using qpos by simp
  show ?thesis
  proof (cases "pow2 ?e \<le> x")
    case True
    with pq upper show ?thesis
      by (simp add: floor_log2_def)
  next
    case False
    with pq lower show ?thesis
      by (simp add: floor_log2_def)
  qed
qed

lemma floor_log2_unique:
  assumes "pow2 e \<le> x" "x < pow2 (e + 1)"
  shows "floor_log2 x = e"
proof -
  from assms(1) pow2_pos [of e] have "0 < x"
    by simp
  from floor_log2_bounds [OF this] assms
  have "pow2 (floor_log2 x) < pow2 (e + 1)" "pow2 e < pow2 (floor_log2 x + 1)"
    by simp_all
  then have "floor_log2 x < e + 1" "e < floor_log2 x + 1"
    by (auto dest: pow2_less_cancel)
  then show ?thesis by simp
qed

lemma round_half_even_near:
  assumes "\<bar>x - of_int m\<bar> < 1 / 2"
  shows "round_half_even x = m"
proof -
  from assms have "of_int m - 1 / 2 < x" "x < of_int m + 1 / 2"
    by linarith+
  then consider "\<lfloor>x\<rfloor> = m" "x - of_int m < 1 / 2" | "\<lfloor>x\<rfloor> = m - 1" "1 / 2 < x - of_int (m - 1)"
    by (cases "of_int m \<le> x") (simp_all add: floor_unique)
  then show ?thesis
    by cases (simp_all add: round_half_even_def)
qed

text \<open>The double nearest to \<open>x\<close>, from the exponent of \<open>x\<close>.\<close>

lemma to_double_eval:
  assumes "pow2 e \<le> \<bar>x\<bar>" "\<bar>x\<bar> < pow2 (e + 1)"
    and "max (e - 52) (- 1074) = q"
    and "\<bar>x / pow2 q - of_int m\<bar> < 1 / 2"
  shows "to_double x =
     (if pow2 1024 \<le> \<bar>of_int m * pow2 q\<bar> then (if 0 < x then PosInf else NegInf)
      else Finite (of_int m * pow2 q))"
proof -
  from assms(1) pow2_pos [of e] have "x \<noteq> 0"
    by auto
  moreover have "floor_log2 \<bar>x\<bar> = e"
    using assms(1,2) by (rule floor_log2_unique)
  moreover have "round_half_even (x / pow2 q) = m"
    using assms(4) by (rule round_half_even_near)
  ultimately show ?thesis
    using assms(3) by (simp add: to_double_def Let_def)
qed

lemma to_double_overflow:
  assumes "pow2 1024 \<le> x"
  shows "to_double x = PosInf"
proof -
  from assms pow2_pos [of 1024] have pos: "0 < x"
    by simp
  let ?e = "floor_log2 \<bar>x\<bar>"
  have abs_x: "\<bar>x\<bar> = x"
    using pos by simp
  from floor_log2_bounds [OF pos] have lo: "pow2 (floor_log2 x) \<le> x" and hi: "x < pow2 (floor_log2 x + 1)"
    by simp_all
  from assms hi have "pow2 1024 < pow2 (floor_log2 x + 1)"
    by simp
  then have e: "1024 \<le> floor_log2 x"
    using pow2_less_cancel [of 1024 "floor_log2 x + 1"] by simp
  then have q: "max (floor_log2 x - 52) (- 1074) = floor_log2 x - 52"
    by simp
  let ?q = "floor_log2 x - 52"
  have "pow2 (floor_log2 x) = pow2 52 * pow2 ?q"
    by (simp add: pow2_add [symmetric])
  with lo have "pow2 52 \<le> x / pow2 ?q"
    using pow2_pos [of ?q] by (simp add: pos_le_divide_eq)
  moreover have "pow2 52 = of_int (2 ^ 52)"
    by (simp add: pow2_def)
  ultimately have "(of_int (2 ^ 52) :: rat) \<le> x / pow2 ?q"
    by simp
  then have "2 ^ 52 \<le> \<lfloor>x / pow2 ?q\<rfloor>"
    by (simp only: le_floor_iff)
  moreover have "\<lfloor>x / pow2 ?q\<rfloor> \<le> round_half_even (x / pow2 ?q)"
    by (simp add: round_half_even_def Let_def)
  ultimately have "(of_int (2 ^ 52) :: rat) \<le> of_int (round_half_even (x / pow2 ?q))"
    by (simp only: of_int_le_iff)
  then have "pow2 52 * pow2 ?q \<le> of_int (round_half_even (x / pow2 ?q)) * pow2 ?q"
    using pow2_pos [of ?q] by (simp add: pow2_def)
  moreover have "pow2 1024 \<le> pow2 52 * pow2 ?q"
    using e by (simp add: pow2_add [symmetric] pow2_mono)
  ultimately have big: "pow2 1024 \<le> \<bar>of_int (round_half_even (x / pow2 ?q)) * pow2 ?q\<bar>"
    by linarith
  show ?thesis
    unfolding to_double_def Let_def abs_x q using pos big by simp
qed

text \<open>
  A percentage that is an infinity or a NaN makes \<^verbatim>\<open>round\<close> raise, whatever the width
  of the bar.
\<close>

lemma scaled_pos_not_finite:
  assumes "width \<noteq> 0" "\<bar>width\<bar> < 2 ^ 53"
  shows "scaled_pos (PFloat PosInf) width = Inl OverflowError"
    and "scaled_pos (PFloat NegInf) width = Inl OverflowError"
    and "scaled_pos (PFloat NaN) width = Inl ValueError"
  using assms to_double_of_int [of width]
  by (auto simp: scaled_pos_def div_100_def int_to_float_def float_mul_def float_sign_def
      float_round_def Let_def)



text \<open>
  The \<^verbatim>\<open>float\<close> \<^verbatim>\<open>1e308\<close> is the double \<open>5010420900022432 \<sqdot> 2\<^sup>9\<^sup>7\<^sup>1\<close>; a hundredth of
  it is the double \<open>6413338752028713 \<sqdot> 2\<^sup>9\<^sup>6\<^sup>4\<close>, and 200 times that is beyond the
  largest double.
\<close>

lemma double_1e308: "to_double (10 ^ 308) = Finite (5010420900022432 * 2 ^ 971)"
proof -
  have "to_double (10 ^ 308) =
     (if pow2 1024 \<le> \<bar>of_int 5010420900022432 * pow2 971\<bar>
      then (if (0::rat) < 10 ^ 308 then PosInf else NegInf)
      else Finite (of_int 5010420900022432 * pow2 971))"
    by (rule to_double_eval [where e = 1023]) (simp_all add: pow2_def)
  then show ?thesis
    by (simp add: pow2_def)
qed

lemma double_1e306:
  "to_double (5010420900022432 * 2 ^ 971 / 100) = Finite (6413338752028713 * 2 ^ 964)"
proof -
  have "to_double (5010420900022432 * 2 ^ 971 / 100) =
     (if pow2 1024 \<le> \<bar>of_int 6413338752028713 * pow2 964\<bar>
      then (if (0::rat) < 5010420900022432 * 2 ^ 971 / 100 then PosInf else NegInf)
      else Finite (of_int 6413338752028713 * pow2 964))"
    by (rule to_double_eval [where e = 1016]) (simp_all add: pow2_def)
  then show ?thesis
    by (simp add: pow2_def)
qed

lemma scaled_pos_1e308: "scaled_pos (PFloat (to_double (10 ^ 308))) 200 = Inl OverflowError"
proof -
  have hundredth: "div_100 (PFloat (to_double (10 ^ 308)))
      = Inr (Finite (6413338752028713 * 2 ^ 964))"
    by (simp only: div_100_def double_1e308 pynum.case pyfloat.case double_1e306)
  have "\<bar>200 :: int\<bar> < 2 ^ 53"
    by simp
  then have "to_double (of_int 200) = Finite (of_int 200)"
    by (rule to_double_of_int)
  then have width: "int_to_float 200 = Inr (Finite (of_int 200))"
    by (simp only: int_to_float_def pyfloat.case)
  have "to_double (6413338752028713 * 2 ^ 964 * of_int 200) = PosInf"
    by (rule to_double_overflow) (simp add: pow2_def)
  then have product: "float_mul (Finite (6413338752028713 * 2 ^ 964)) (Finite (of_int 200)) = PosInf"
    by (simp only: float_mul_def prod.case pyfloat.case)
  show ?thesis
    by (simp only: scaled_pos_def hundredth width product sum.case float_round_def pyfloat.case)
qed

lemma to_double_finite:
  assumes "pow2 e \<le> \<bar>x\<bar>" "\<bar>x\<bar> < pow2 (e + 1)"
    and "max (e - 52) (- 1074) = q"
    and "\<bar>x / pow2 q - of_int m\<bar> < 1 / 2"
    and "\<bar>of_int m * pow2 q\<bar> < pow2 1024"
    and "y = of_int m * pow2 q"
  shows "to_double x = Finite y"
  using to_double_eval [OF assms(1-4)] assms(5,6) by simp

text \<open>
  The arithmetic is the doubles', not the rationals': 70 percent of 45 cells is
  \<open>31.499999999999996\<close> and rounds to 31, 14 percent of 75 cells is
  \<open>10.500000000000002\<close> and rounds to 11.
\<close>

lemma scaled_pos_70_45: "scaled_pos (PInt 70) 45 = Inr 31"
proof -
  have "to_double (of_int 70 / 100) = Finite (3152519739159347 / 4503599627370496)"
    by (rule to_double_finite [where e = "- 1" and q = "- 53" and m = 6305039478318694])
      (simp_all add: pow2_def)
  then have quotient: "div_100 (PInt 70) = Inr (Finite (3152519739159347 / 4503599627370496))"
    by (simp only: div_100_def pynum.case pyfloat.case)
  have "\<bar>45 :: int\<bar> < 2 ^ 53"
    by simp
  then have "to_double (of_int 45) = Finite (of_int 45)"
    by (rule to_double_of_int)
  then have width: "int_to_float 45 = Inr (Finite (of_int 45))"
    by (simp only: int_to_float_def pyfloat.case)
  have "to_double (3152519739159347 / 4503599627370496 * of_int 45)
      = Finite (8866461766385663 / 281474976710656)"
    by (rule to_double_finite [where e = 4 and q = "- 48" and m = 8866461766385663])
      (simp_all add: pow2_def)
  then have product: "float_mul (Finite (3152519739159347 / 4503599627370496)) (Finite (of_int 45))
      = Finite (8866461766385663 / 281474976710656)"
    by (simp only: float_mul_def prod.case pyfloat.case)
  have "round_half_even (8866461766385663 / 281474976710656) = 31"
    by (rule round_half_even_near) simp
  then have rounded: "float_round (Finite (8866461766385663 / 281474976710656)) = Inr 31"
    by (simp only: float_round_def pyfloat.case)
  show ?thesis
    by (simp only: scaled_pos_def quotient width product rounded sum.case)
qed

lemma scaled_pos_14_75: "scaled_pos (PFloat (Finite 14)) 75 = Inr 11"
proof -
  have "to_double (14 / 100) = Finite (1261007895663739 / 9007199254740992)"
    by (rule to_double_finite [where e = "- 3" and q = "- 55" and m = 5044031582654956])
      (simp_all add: pow2_def)
  then have quotient: "div_100 (PFloat (Finite 14))
      = Inr (Finite (1261007895663739 / 9007199254740992))"
    by (simp only: div_100_def pynum.case pyfloat.case)
  have "\<bar>75 :: int\<bar> < 2 ^ 53"
    by simp
  then have "to_double (of_int 75) = Finite (of_int 75)"
    by (rule to_double_of_int)
  then have width: "int_to_float 75 = Inr (Finite (of_int 75))"
    by (simp only: int_to_float_def pyfloat.case)
  have "to_double (1261007895663739 / 9007199254740992 * of_int 75)
      = Finite (5910974510923777 / 562949953421312)"
    by (rule to_double_finite [where e = 3 and q = "- 49" and m = 5910974510923777])
      (simp_all add: pow2_def)
  then have product: "float_mul (Finite (1261007895663739 / 9007199254740992)) (Finite (of_int 75))
      = Finite (5910974510923777 / 562949953421312)"
    by (simp only: float_mul_def prod.case pyfloat.case)
  have "round_half_even (5910974510923777 / 562949953421312) = 11"
    by (rule round_half_even_near) simp
  then have rounded: "float_round (Finite (5910974510923777 / 562949953421312)) = Inr 11"
    by (simp only: float_round_def pyfloat.case)
  show ?thesis
    by (simp only: scaled_pos_def quotient width product rounded sum.case)
qed

section \<open>Properties of the bar renderer\<close>

lemma usage_pos_of_range:
  "usage_pos_of width u = Inr up \<Longrightarrow> 0 \<le> width \<Longrightarrow> 0 \<le> up \<and> up \<le> width"
  by (auto simp: usage_pos_of_def split: sum.splits)

lemma glide_pos_of_range:
  "glide_pos_of width g = Inr gp \<Longrightarrow> 1 \<le> width \<Longrightarrow> 0 \<le> gp \<and> gp < width"
  by (auto simp: glide_pos_of_def split: sum.splits)

lemma usage_pos_of_100:
  assumes "0 \<le> width" "width < 2 ^ 53"
  shows "usage_pos_of width (PInt 100) = Inr width"
    and "usage_pos_of width (PFloat (Finite 100)) = Inr width"
  using assms scaled_pos_100 [of width] by (simp_all add: usage_pos_of_def)

lemma usage_pos_of_0:
  assumes "0 \<le> width" "width < 2 ^ 53"
  shows "usage_pos_of width (PInt 0) = Inr 0"
    and "usage_pos_of width (PFloat (Finite 0)) = Inr 0"
  using assms scaled_pos_0 [of width] by (simp_all add: usage_pos_of_def)

lemma glide_pos_of_100:
  assumes "1 \<le> width" "width < 2 ^ 53"
  shows "glide_pos_of width (PInt 100) = Inr (width - 1)"
    and "glide_pos_of width (PFloat (Finite 100)) = Inr (width - 1)"
  using assms scaled_pos_100 [of width] by (simp_all add: glide_pos_of_def)

lemma takeWhile_upto_until:
  "takeWhile (\<lambda>i. i \<noteq> k) [a..n] = (if a \<le> k \<and> k \<le> n then [a..k - 1] else [a..n])"
proof (induction a n rule: upto.induct)
  case (1 i j)
  show ?case
  proof (cases "i \<le> j")
    case le: True
    then have unfold: "[i..j] = i # [i + 1..j]"
      by (simp add: upto_rec1)
    show ?thesis
    proof (cases "i = k")
      case True
      with unfold le show ?thesis by simp
    next
      case False
      with 1 [OF le] unfold le show ?thesis
        by (auto simp: upto_rec1)
    qed
  next
    case False
    then show ?thesis by simp
  qed
qed

lemma draw_bar_none:
  "width < 3 \<or> max_h \<le> y \<or> max_w - x < 3 \<Longrightarrow> draw_bar max_h max_w y x width u g = Inr []"
  by (auto simp: draw_bar_def)

text \<open>
  \<^verbatim>\<open>draw_bar\<close> raises exactly when line 230 or line 232 does: the bar has a place in
  the window and one of the two positions cannot be computed.
\<close>

lemma draw_bar_raises:
  "draw_bar max_h max_w y x width u g = Inl e \<longleftrightarrow>
     3 \<le> width \<and> y < max_h \<and> 3 \<le> max_w - x
     \<and> (usage_pos_of (bar_width max_w x width) u = Inl e
        \<or> (\<exists>up. usage_pos_of (bar_width max_w x width) u = Inr up)
            \<and> glide_pos_of (bar_width max_w x width) g = Inl e)"
  by (auto simp: draw_bar_def bar_width_def Let_def split: sum.splits)

text \<open>What \<^verbatim>\<open>draw_bar\<close> writes: the cells \<open>0\<close> to \<open>last\<close> of the bar, in order.\<close>

lemma draw_bar_cells:
  assumes "3 \<le> width" "y < max_h" "3 \<le> max_w - x"
    and "usage_pos_of (bar_width max_w x width) u = Inr up"
    and "glide_pos_of (bar_width max_w x width) g = Inr gp"
  shows "draw_bar max_h max_w y x width u g =
     Inr (map (\<lambda>i. (y, x + i, bar_cell up gp u g i))
       [0..(if y = max_h - 1 \<and> max_w - x \<le> width then bar_width max_w x width - 2
            else bar_width max_w x width - 1)])"
proof -
  let ?w = "bar_width max_w x width"
  have le: "?w \<le> max_w - x" and w3: "3 \<le> ?w"
    using assms by (simp_all add: bar_width_def)
  have "takeWhile (\<lambda>i. \<not> i \<ge> max_w - x \<and> \<not> (y = max_h - 1 \<and> x + i = max_w - 1)) [0..?w - 1]
      = takeWhile (\<lambda>i. \<not> (y = max_h - 1 \<and> x + i = max_w - 1)) [0..?w - 1]"
    using le by (intro takeWhile_cong) auto
  also have "\<dots> = [0..(if y = max_h - 1 \<and> max_w - x \<le> width then ?w - 2 else ?w - 1)]"
  proof (cases "y = max_h - 1")
    case True
    then have "takeWhile (\<lambda>i. \<not> (y = max_h - 1 \<and> x + i = max_w - 1)) [0..?w - 1]
        = takeWhile (\<lambda>i. i \<noteq> max_w - 1 - x) [0..?w - 1]"
      by (intro takeWhile_cong) auto
    also have "\<dots> = (if max_w - x \<le> width then [0..?w - 2] else [0..?w - 1])"
      using assms(1-3) by (auto simp: takeWhile_upto_until bar_width_def min_def)
    finally show ?thesis using True by simp
  next
    case False
    then show ?thesis by simp
  qed
  finally have loop:
    "takeWhile (\<lambda>i. \<not> i \<ge> max_w - x \<and> \<not> (y = max_h - 1 \<and> x + i = max_w - 1)) [0..?w - 1]
       = [0..(if y = max_h - 1 \<and> max_w - x \<le> width then ?w - 2 else ?w - 1)]" .
  from assms(4,5) have "usage_pos_of (min width (max_w - x)) u = Inr up"
      "glide_pos_of (min width (max_w - x)) g = Inr gp"
    by (simp_all add: bar_width_def)
  with assms(1-3) loop show ?thesis
    by (simp add: draw_bar_def Let_def bar_width_def)
qed

lemma draw_bar_call:
  assumes "draw_bar max_h max_w y x width u g = Inr calls" "call \<in> set calls"
  shows "\<exists>up gp. usage_pos_of (bar_width max_w x width) u = Inr up
           \<and> glide_pos_of (bar_width max_w x width) g = Inr gp
           \<and> 3 \<le> bar_width max_w x width
           \<and> 0 \<le> call_index x call \<and> call_index x call < bar_width max_w x width
           \<and> snd (snd call) = bar_cell up gp u g (call_index x call)"
proof -
  have some: "3 \<le> width" "y < max_h" "3 \<le> max_w - x"
    using assms draw_bar_none [of width max_h y max_w x u g] by force+
  obtain up where up: "usage_pos_of (bar_width max_w x width) u = Inr up"
    using assms(1) some draw_bar_raises [of max_h max_w y x width u g]
    by (cases "usage_pos_of (bar_width max_w x width) u") auto
  obtain gp where gp: "glide_pos_of (bar_width max_w x width) g = Inr gp"
    using assms(1) some up draw_bar_raises [of max_h max_w y x width u g]
    by (cases "glide_pos_of (bar_width max_w x width) g") auto
  from assms show ?thesis
    unfolding draw_bar_cells [OF some up gp] using some up gp
    by (auto simp: call_index_def bar_width_def split: if_splits)
qed

lemma bar_cell_marker:
  "fst (bar_cell up gp u g i) = MARKER_CHAR \<longleftrightarrow> i = gp"
  by (simp add: bar_cell_def MARKER_CHAR_def FILL_CHAR_def EMPTY_CHAR_def)

lemma bar_cell_filled:
  "i \<noteq> gp \<Longrightarrow>
   (snd (bar_cell up gp u g i) = Color_Pair 1 \<or> snd (bar_cell up gp u g i) = Color_Pair 2)
     \<longleftrightarrow> i < up"
  by (simp add: bar_cell_def)

lemma bar_cell_filled_over:
  "i \<noteq> gp \<Longrightarrow> snd (bar_cell up gp u g i) = Color_Pair 2 \<longleftrightarrow> i < up \<and> py_gt u g \<and> i \<ge> gp"
  by (simp add: bar_cell_def)

text \<open>
  When \<^verbatim>\<open>draw_bar\<close> returns, the marker it wrote sits at \<open>glide_pos\<close>, the rounded
  position clamped to the range from 0 to \<open>width - 1\<close>, and so inside the bar.
\<close>

lemma marker_cell_when_drawn:
  assumes "draw_bar max_h max_w y x width u g = Inr calls" "call \<in> set calls"
    and "is_marker_call call"
  shows "glide_pos_of (bar_width max_w x width) g = Inr (call_index x call)
         \<and> 0 \<le> call_index x call \<and> call_index x call < width"
proof -
  from draw_bar_call [OF assms(1,2)] obtain up gp where
    gp: "glide_pos_of (bar_width max_w x width) g = Inr gp" and
    range: "0 \<le> call_index x call" "call_index x call < bar_width max_w x width" and
    cell: "snd (snd call) = bar_cell up gp u g (call_index x call)"
    by blast
  from assms(3) cell have "call_index x call = gp"
    by (simp add: is_marker_call_def bar_cell_marker)
  moreover have "bar_width max_w x width \<le> width"
    by (simp add: bar_width_def)
  ultimately show ?thesis using range gp by simp
qed

text \<open>
  When \<^verbatim>\<open>draw_bar\<close> returns, a cell that is not the marker is filled exactly when
  its index is below \<open>usage_pos\<close>, and filled over exactly when, moreover, the usage
  exceeds the glide slope and the cell is at or right of the marker.
\<close>

lemma bar_cells_when_drawn:
  assumes "draw_bar max_h max_w y x width u g = Inr calls" "call \<in> set calls"
    and "\<not> is_marker_call call"
  shows "\<exists>up gp. usage_pos_of (bar_width max_w x width) u = Inr up
           \<and> glide_pos_of (bar_width max_w x width) g = Inr gp
           \<and> (is_filled_call call \<longleftrightarrow> call_index x call < up)
           \<and> (is_filled_over_call call \<longleftrightarrow>
                call_index x call < up \<and> py_gt u g \<and> gp \<le> call_index x call)"
proof -
  from draw_bar_call [OF assms(1,2)] obtain up gp where
    up: "usage_pos_of (bar_width max_w x width) u = Inr up" and
    gp: "glide_pos_of (bar_width max_w x width) g = Inr gp" and
    cell: "snd (snd call) = bar_cell up gp u g (call_index x call)"
    by blast
  from assms(3) cell have other: "call_index x call \<noteq> gp"
    by (simp add: is_marker_call_def bar_cell_marker)
  have "is_filled_call call \<longleftrightarrow> call_index x call < up"
    using bar_cell_filled [OF other] cell by (simp add: is_filled_call_def)
  moreover have "is_filled_over_call call \<longleftrightarrow>
      call_index x call < up \<and> py_gt u g \<and> gp \<le> call_index x call"
    using bar_cell_filled_over [OF other] cell by (simp add: is_filled_over_call_def)
  ultimately show ?thesis using up gp by blast
qed

lemma rounding_examples:
  "usage_pos_of 45 (PInt 70) = Inr 31" "glide_pos_of 75 (PFloat (Finite 14)) = Inr 11"
  by (simp_all add: usage_pos_of_def glide_pos_of_def scaled_pos_70_45 scaled_pos_14_75)


text \<open>
  C7 fails where the scaled usage is not a finite number. A utilization of
  \<^verbatim>\<open>1e308\<close> on a bar of 200 cells overflows to an infinity in line 230, and
  \<^verbatim>\<open>round\<close> raises OverflowError; on an infinite utilization it does too, and on a NaN
  it raises ValueError. The clamp of line 231 is never reached and no cell is written.
\<close>

theorem bar_cells_raises:
  "draw_bar 24 204 5 2 200 (PFloat (to_double (10 ^ 308))) (PFloat (Finite 50))
     = Inl OverflowError
   \<and> draw_bar 24 80 5 2 76 (PFloat PosInf) (PFloat (Finite 50)) = Inl OverflowError
   \<and> draw_bar 24 80 5 2 76 (PFloat NaN) (PFloat (Finite 50)) = Inl ValueError"
proof -
  have widths: "bar_width 204 2 200 = 200" "bar_width 80 2 76 = 76"
    by (simp_all add: bar_width_def)
  have usage: "usage_pos_of 200 (PFloat (to_double (10 ^ 308))) = Inl OverflowError"
    by (simp only: usage_pos_of_def scaled_pos_1e308 sum.case)
  have others: "usage_pos_of 76 (PFloat PosInf) = Inl OverflowError"
      "usage_pos_of 76 (PFloat NaN) = Inl ValueError"
    by (simp_all add: usage_pos_of_def scaled_pos_not_finite)
  show ?thesis
    unfolding draw_bar_raises widths using usage others by simp
qed

section \<open>Properties of the glide slope\<close>

text \<open>
  On every other reset time \<^verbatim>\<open>calc_glide_slope\<close> returns a percentage between 0 and
  100: 0 when the reset time is absent, not a string or not parsable, and when the
  window is not positive; 100 when the reset is now; 0 when it is a whole window away.
\<close>

lemma calc_glide_slope_returns:
  assumes "\<not> (\<exists>s. resets_at_str = JStr s \<and> s \<noteq> [] \<and> fromisoformat (replace_Z s) = Naive)"
  shows "\<exists>pct. calc_glide_slope fromisoformat now resets_at_str window_seconds = Inr pct
           \<and> 0 \<le> pct \<and> pct \<le> 100"
  using assms
  by (cases resets_at_str; cases "fromisoformat (replace_Z (case resets_at_str of JStr s \<Rightarrow> s | _ \<Rightarrow> []))")
     (auto simp: calc_glide_slope_def truthy_def Let_def)

lemma calc_glide_slope_zero:
  "\<not> truthy resets_at_str \<Longrightarrow>
     calc_glide_slope fromisoformat now resets_at_str window_seconds = Inr 0"
  "fromisoformat (replace_Z s) = Invalid_Format \<Longrightarrow>
     calc_glide_slope fromisoformat now (JStr s) window_seconds = Inr 0"
  "fromisoformat (replace_Z s) = Aware t \<Longrightarrow> window_seconds \<le> 0 \<Longrightarrow>
     calc_glide_slope fromisoformat now (JStr s) window_seconds = Inr 0"
  by (auto simp: calc_glide_slope_def truthy_def Let_def)

lemma calc_glide_slope_ends:
  assumes "s \<noteq> []" "0 < window_seconds"
  shows "fromisoformat (replace_Z s) = Aware now \<Longrightarrow>
           calc_glide_slope fromisoformat now (JStr s) window_seconds = Inr 100"
    and "fromisoformat (replace_Z s) = Aware (now + real_of_int window_seconds) \<Longrightarrow>
           calc_glide_slope fromisoformat now (JStr s) window_seconds = Inr 0"
  using assms by (auto simp: calc_glide_slope_def truthy_def Let_def)

text \<open>
  C5 fails on a reset time without a UTC offset. \<^verbatim>\<open>fromisoformat\<close> accepts the
  string and returns a naive datetime; subtracting the aware \<^verbatim>\<open>now\<close> from it is a
  TypeError, which the \<^verbatim>\<open>except (ValueError, AttributeError)\<close> around the parse does
  not cover. The function returns no percentage: the exception leaves it.
\<close>

theorem calc_glide_slope_naive_raises:
  "s \<noteq> [] \<Longrightarrow> fromisoformat (replace_Z s) = Naive \<Longrightarrow>
     calc_glide_slope fromisoformat now (JStr s) window_seconds = Inl TypeError"
  by (simp add: calc_glide_slope_def truthy_def)

text \<open>
  C5 at \<^verbatim>\<open>"2026-01-01T00:00:00"\<close>, with a five hour window.
\<close>

theorem calc_glide_slope_naive_raises_witness:
  "calc_glide_slope
     (\<lambda>s. if s = ''2026-01-01T00:00:00'' then Naive
          else if s = ''2026-01-01T00:00:00+00:00'' then Aware 1767225600
          else Invalid_Format)
     1767200000 (JStr ''2026-01-01T00:00:00'') 18000 = Inl TypeError"
  by (rule calc_glide_slope_naive_raises) (simp_all add: replace_Z_def)

section \<open>Properties of the fetch\<close>

lemma get_access_token_cases:
  assumes "get_access_token loads r = (token, err)"
  shows "err = None \<and> truthy token \<or> (\<exists>e. err = Some e \<and> e \<noteq> [])"
  using assms
  by (auto simp: get_access_token_def no_get_def Let_def split: security_run.splits if_splits
      option.splits json.splits)

lemma fetch_usage_cases:
  assumes "fetch_usage token r = (data, err)"
  shows "err = None \<and> r = Response data \<or> (\<exists>e. err = Some e \<and> e \<noteq> [])"
  using assms
  by (auto simp: fetch_usage_def split: urlopen_result.splits)

lemma do_fetch_token_error:
  assumes "get_access_token (json_loads env) (security env) = (token, Some e)"
  shows "do_fetch env s = Inr (s\<lparr>last_fetch_attempt := attempt_clock env, error_msg := Some e\<rparr>)"
proof -
  from get_access_token_cases [OF assms] have "e \<noteq> []" by simp
  with assms show ?thesis
    by (simp add: do_fetch_def is_set_def Let_def)
qed

lemma do_fetch_fetch_error:
  assumes "get_access_token (json_loads env) (security env) = (token, None)"
    and "fetch_usage token (urlopen env) = (data, Some e)"
  shows "do_fetch env s = Inr (s\<lparr>last_fetch_attempt := attempt_clock env, error_msg := Some e\<rparr>)"
proof -
  from fetch_usage_cases [OF assms(2)] have "e \<noteq> []" by simp
  with assms show ?thesis
    by (simp add: do_fetch_def is_set_def Let_def)
qed

lemma do_fetch_success:
  assumes "get_access_token (json_loads env) (security env) = (token, None)"
    and "fetch_usage token (urlopen env) = (JObj d, None)"
  shows "do_fetch env s =
     Inr (s\<lparr>last_fetch_attempt := attempt_clock env, error_msg := None,
            categories := parse_usage d, last_fetch_time := Some (success_clock env)\<rparr>)"
  using assms by (simp add: do_fetch_def is_set_def parse_usage_any_def Let_def)

lemma do_fetch_Inr:
  assumes "do_fetch env s = Inr s'"
  shows "(\<exists>e. e \<noteq> [] \<and> s' = s\<lparr>last_fetch_attempt := attempt_clock env, error_msg := Some e\<rparr>)
       \<or> (\<exists>d. s' = s\<lparr>last_fetch_attempt := attempt_clock env, error_msg := None,
            categories := parse_usage d, last_fetch_time := Some (success_clock env)\<rparr>)"
proof -
  obtain token err where tok: "get_access_token (json_loads env) (security env) = (token, err)"
    by (cases "get_access_token (json_loads env) (security env)")
  obtain data err' where fet: "fetch_usage token (urlopen env) = (data, err')"
    by (cases "fetch_usage token (urlopen env)")
  from get_access_token_cases [OF tok] fetch_usage_cases [OF fet] assms tok fet
  show ?thesis
    by (auto simp: do_fetch_def is_set_def parse_usage_any_def Let_def
        split: if_splits json.splits sum.splits)
qed

lemma do_fetch_total:
  assumes "mapping_payload env"
  shows "\<exists>s'. do_fetch env s = Inr s'"
proof -
  obtain token err where tok: "get_access_token (json_loads env) (security env) = (token, err)"
    by (cases "get_access_token (json_loads env) (security env)")
  obtain data err' where fet: "fetch_usage token (urlopen env) = (data, err')"
    by (cases "fetch_usage token (urlopen env)")
  show ?thesis
  proof (cases "is_set err")
    case True
    with tok show ?thesis by (simp add: do_fetch_def Let_def)
  next
    case no_err: False
    show ?thesis
    proof (cases "is_set err'")
      case True
      with tok fet no_err show ?thesis by (simp add: do_fetch_def Let_def)
    next
      case False
      with fetch_usage_cases [OF fet] have "urlopen env = Response data"
        by (auto simp: is_set_def)
      with assms obtain d where "data = JObj d"
        by (auto simp: mapping_payload_def split: json.splits)
      with tok fet no_err False show ?thesis
        by (simp add: do_fetch_def Let_def parse_usage_any_def)
    qed
  qed
qed

lemma do_fetch_frame:
  assumes "do_fetch env s = Inr s'"
  shows "has_focus s' = has_focus s \<and> escape_buf s' = escape_buf s
       \<and> escape_time s' = escape_time s"
  using do_fetch_Inr [OF assms] by auto

lemma do_fetch_fetched_or_failed:
  assumes "do_fetch env s = Inr s'"
  shows "fetched_or_failed s'"
  using do_fetch_Inr [OF assms] by (auto simp: fetched_or_failed_def is_set_def)

text \<open>
  The calls of \<^verbatim>\<open>do_fetch\<close> that return. When the keychain step or the request
  returns an error, \<^verbatim>\<open>error_msg\<close> is set to it and \<^verbatim>\<open>last_fetch_attempt\<close> to the clock,
  and every other variable, \<^verbatim>\<open>categories\<close> and \<^verbatim>\<open>last_fetch_time\<close> among them, is left
  as it was. With a token and a mapping, \<^verbatim>\<open>categories\<close> is replaced, \<^verbatim>\<open>error_msg\<close>
  cleared and \<^verbatim>\<open>last_fetch_time\<close> and \<^verbatim>\<open>last_fetch_attempt\<close> stamped.
\<close>

lemma do_fetch_outcomes:
  "(get_access_token (json_loads env) (security env) = (token, Some e) \<longrightarrow>
      do_fetch env s =
        Inr (s\<lparr>last_fetch_attempt := attempt_clock env, error_msg := Some e\<rparr>))
   \<and> (get_access_token (json_loads env) (security env) = (token, None)
        \<and> fetch_usage token (urlopen env) = (data, Some e) \<longrightarrow>
      do_fetch env s =
        Inr (s\<lparr>last_fetch_attempt := attempt_clock env, error_msg := Some e\<rparr>))
   \<and> (get_access_token (json_loads env) (security env) = (token, None)
        \<and> fetch_usage token (urlopen env) = (JObj d, None) \<longrightarrow>
      do_fetch env s =
        Inr (s\<lparr>last_fetch_attempt := attempt_clock env, error_msg := None,
               categories := parse_usage d, last_fetch_time := Some (success_clock env)\<rparr>))
   \<and> (do_fetch env s = Inr s' \<longrightarrow>
        (\<exists>e. e \<noteq> [] \<and>
           s' = s\<lparr>last_fetch_attempt := attempt_clock env, error_msg := Some e\<rparr>)
        \<or> (\<exists>d. s' = s\<lparr>last_fetch_attempt := attempt_clock env, error_msg := None,
               categories := parse_usage d, last_fetch_time := Some (success_clock env)\<rparr>))"
  using do_fetch_token_error [of env token e s] do_fetch_fetch_error [of env token data e s]
    do_fetch_success [of env token d s] do_fetch_Inr [of env s s']
  by blast

lemma with_token_token:
  "get_access_token (json_loads (with_token answer)) (security (with_token answer))
     = (JStr ''token'', None)"
  by (simp add: with_token_def get_access_token_def strip_def is_space_def get_default_def
      dict_get_def truthy_def)

lemma no_keychain_token:
  "get_access_token (json_loads no_keychain) (security no_keychain)
     = (JNull, Some ([CHR 0x27] @ ''security'' @ [CHR 0x27] @ '' command not found (macOS only)''))"
  by (simp add: no_keychain_def get_access_token_def)

lemma str_int_401: "str_int 401 = ''401''"
  by code_simp

lemma parse_usage_42:
  "parse_usage [(''five_hour'', JObj [(''utilization'', JInt 42)])] =
     [\<lparr>cat_key = ''five_hour'', cat_name = ''Current session'', cat_utilization = JInt 42,
       cat_resets_at = JNull, cat_window_seconds = 18000\<rparr>]"
  by code_simp

text \<open>
  On a state that holds the data of a fetch at time 50: without the \<^verbatim>\<open>security\<close>
  command, with a token and the answer 401, and with a token and a usage mapping.
\<close>

lemma do_fetch_examples:
  "do_fetch no_keychain (fetched_at True 50) =
     Inr ((fetched_at True 50)\<lparr>last_fetch_attempt := 0,
        error_msg := Some ([CHR 0x27] @ ''security'' @ [CHR 0x27]
                            @ '' command not found (macOS only)'')\<rparr>)
   \<and> do_fetch (with_token (HTTP_Error 401 ''Unauthorized'')) (fetched_at True 50) =
     Inr ((fetched_at True 50)\<lparr>last_fetch_attempt := 100,
        error_msg := Some ''API error: 401 Unauthorized''\<rparr>)
   \<and> do_fetch
       (with_token (Response (JObj [(''five_hour'', JObj [(''utilization'', JInt 42)])])))
       (fetched_at True 50) =
     Inr ((fetched_at True 50)\<lparr>last_fetch_attempt := 100, error_msg := None,
        categories :=
          [\<lparr>cat_key = ''five_hour'', cat_name = ''Current session'',
            cat_utilization = JInt 42, cat_resets_at = JNull, cat_window_seconds = 18000\<rparr>],
        last_fetch_time := Some 101\<rparr>)"
proof -
  let ?s = "fetched_at True 50"
  let ?denied = "with_token (HTTP_Error 401 ''Unauthorized'')"
  let ?d = "[(''five_hour'', JObj [(''utilization'', JInt 42)])]"
  let ?answered = "with_token (Response (JObj ?d))"
  have "fetch_usage (JStr ''token'') (urlopen ?denied)
          = (JNull, Some ''API error: 401 Unauthorized'')"
    by (simp add: with_token_def fetch_usage_def str_int_401)
  with do_fetch_outcomes [of ?denied "JStr ''token''" "''API error: 401 Unauthorized''" ?s JNull]
    with_token_token [of "HTTP_Error 401 ''Unauthorized''"]
  have denied: "do_fetch ?denied ?s =
      Inr (?s\<lparr>last_fetch_attempt := attempt_clock ?denied,
             error_msg := Some ''API error: 401 Unauthorized''\<rparr>)"
    by blast
  have "fetch_usage (JStr ''token'') (urlopen ?answered) = (JObj ?d, None)"
    by (simp add: with_token_def fetch_usage_def)
  with do_fetch_outcomes [of ?answered "JStr ''token''" _ ?s _ ?d]
    with_token_token [of "Response (JObj ?d)"]
  have answered: "do_fetch ?answered ?s =
      Inr (?s\<lparr>last_fetch_attempt := attempt_clock ?answered, error_msg := None,
             categories := parse_usage ?d, last_fetch_time := Some (success_clock ?answered)\<rparr>)"
    by blast
  from do_fetch_outcomes [of no_keychain JNull _ ?s] no_keychain_token
  have missing: "do_fetch no_keychain ?s =
      Inr (?s\<lparr>last_fetch_attempt := attempt_clock no_keychain,
         error_msg := Some ([CHR 0x27] @ ''security'' @ [CHR 0x27]
                            @ '' command not found (macOS only)'')\<rparr>)"
    by blast
  from missing denied answered show ?thesis
    by (simp add: parse_usage_42 with_token_def no_keychain_def)
qed

text \<open>
  With a token and an answer that decodes to anything but a mapping, no error comes
  back from \<^verbatim>\<open>fetch_usage\<close>, and \<^verbatim>\<open>parse_usage\<close> raises after \<^verbatim>\<open>error_msg\<close> was
  cleared: the exception leaves \<^verbatim>\<open>do_fetch\<close>.
\<close>

lemma do_fetch_raises:
  assumes "get_access_token (json_loads env) (security env) = (token, None)"
    and "urlopen env = Response data" "\<forall>d. data \<noteq> JObj d"
  shows "\<exists>e. do_fetch env s = Inl e"
proof -
  from assms(2) have "fetch_usage token (urlopen env) = (data, None)"
    by (simp add: fetch_usage_def)
  moreover from assms(3) have "\<exists>e. parse_usage_any data = Inl e"
    by (cases data) (auto simp: parse_usage_any_def)
  ultimately show ?thesis
    using assms(1) by (auto simp: do_fetch_def is_set_def Let_def)
qed

text \<open>
  C9 fails on an answer of the endpoint that is well-formed JSON and not an object.
  For the body \<^verbatim>\<open>[]\<close> line 112 raises AttributeError, for \<^verbatim>\<open>null\<close> line 92 raises
  TypeError. Neither is caught: the attempt sets no error message and stamps no
  success, and the exception ends the loop.
\<close>

theorem do_fetch_payload_raises:
  "do_fetch (with_token (Response (JArr []))) s = Inl AttributeError
   \<and> do_fetch (with_token (Response JNull)) s = Inl TypeError"
proof -
  have "fetch_usage (JStr ''token'') (urlopen (with_token (Response (JArr []))))
          = (JArr [], None)"
      "fetch_usage (JStr ''token'') (urlopen (with_token (Response JNull))) = (JNull, None)"
    by (simp_all add: with_token_def fetch_usage_def)
  moreover have "parse_usage_any (JArr []) = Inl AttributeError"
      "parse_usage_any JNull = Inl TypeError"
    by (simp_all add: parse_usage_any_def CATEGORY_ORDER_def)
  ultimately show ?thesis
    using with_token_token [of "Response (JArr [])"] with_token_token [of "Response JNull"]
    by (simp add: do_fetch_def is_set_def Let_def)
qed

section \<open>Properties of the refresh scheduler\<close>

lemma refresh_check_due:
  "refresh_check now env s =
     (if refresh_due s now
      then (case do_fetch env s of Inl e \<Rightarrow> Raise e | Inr s' \<Rightarrow> Next s')
      else Next s)"
  by (cases "last_fetch_time s")
     (simp_all add: refresh_check_def refresh_due_def REFRESH_FOCUSED_def REFRESH_UNFOCUSED_def)

text \<open>
  C8. The check of lines 437 to 444 calls \<^verbatim>\<open>do_fetch\<close> exactly when the scheduler's
  rule holds, and leaves the state alone otherwise.
\<close>

theorem refresh_check_rule:
  "refresh_check now env s =
     (if refresh_due s now
      then (case do_fetch env s of Inl e \<Rightarrow> Raise e | Inr s' \<Rightarrow> Next s')
      else Next s)"
  by (rule refresh_check_due)

lemma no_keychain_fetch:
  "do_fetch no_keychain s =
     Inr (s\<lparr>last_fetch_attempt := 0,
        error_msg := Some ([CHR 0x27] @ ''security'' @ [CHR 0x27]
                            @ '' command not found (macOS only)'')\<rparr>)"
  using do_fetch_token_error [OF no_keychain_token, of s] by (simp add: no_keychain_def)

text \<open>
  C8 at the edges of the three intervals: with the focus, 30 seconds after the fetch
  and not 29; without it, 600 and not 599; after a failure with no success, 10 seconds
  after the attempt and not 9.
\<close>

theorem refresh_check_rule_witness:
  "refresh_check 30 no_keychain (fetched_at True 0) =
     Next ((fetched_at True 0)\<lparr>last_fetch_attempt := 0,
        error_msg := Some ([CHR 0x27] @ ''security'' @ [CHR 0x27]
                            @ '' command not found (macOS only)'')\<rparr>)
   \<and> refresh_check 29 no_keychain (fetched_at True 0) = Next (fetched_at True 0)
   \<and> refresh_check 600 no_keychain (fetched_at False 0) =
     Next ((fetched_at False 0)\<lparr>last_fetch_attempt := 0,
        error_msg := Some ([CHR 0x27] @ ''security'' @ [CHR 0x27]
                            @ '' command not found (macOS only)'')\<rparr>)
   \<and> refresh_check 599 no_keychain (fetched_at False 0) = Next (fetched_at False 0)
   \<and> refresh_check 10 (with_token (Response (JObj [])))
       (initial_state\<lparr>error_msg := Some ''Keychain access timed out''\<rparr>) =
     Next (initial_state\<lparr>last_fetch_attempt := 100, error_msg := None, categories := [],
        last_fetch_time := Some 101\<rparr>)
   \<and> refresh_check 9 (with_token (Response (JObj [])))
       (initial_state\<lparr>error_msg := Some ''Keychain access timed out''\<rparr>) =
     Next (initial_state\<lparr>error_msg := Some ''Keychain access timed out''\<rparr>)"
proof -
  let ?failed = "initial_state\<lparr>error_msg := Some ''Keychain access timed out''\<rparr>"
  let ?env = "with_token (Response (JObj []))"
  have due: "refresh_due (fetched_at True 0) 30" "\<not> refresh_due (fetched_at True 0) 29"
      "refresh_due (fetched_at False 0) 600" "\<not> refresh_due (fetched_at False 0) 599"
      "refresh_due ?failed 10" "\<not> refresh_due ?failed 9"
    by (simp_all add: refresh_due_def fetched_at_def initial_state_def is_set_def)
  have "fetch_usage (JStr ''token'') (urlopen ?env) = (JObj [], None)"
    by (simp add: with_token_def fetch_usage_def)
  from do_fetch_success [OF with_token_token this, of ?failed]
  have fetch: "do_fetch ?env ?failed =
      Inr (initial_state\<lparr>last_fetch_attempt := 100, error_msg := None, categories := [],
        last_fetch_time := Some 101\<rparr>)"
    by (simp add: with_token_def parse_usage_def CATEGORY_ORDER_def initial_state_def)
  show ?thesis
    using refresh_check_rule [of 30 no_keychain "fetched_at True 0"]
      refresh_check_rule [of 29 no_keychain "fetched_at True 0"]
      refresh_check_rule [of 600 no_keychain "fetched_at False 0"]
      refresh_check_rule [of 599 no_keychain "fetched_at False 0"]
      refresh_check_rule [of 10 ?env ?failed]
      refresh_check_rule [of 9 ?env ?failed]
      due fetch
    by (simp add: no_keychain_fetch)
qed

section \<open>Properties of the loop\<close>

lemma handle_key_fetched_or_failed:
  assumes "handle_key c clock env s = Next s1" "fetched_or_failed s"
  shows "fetched_or_failed s1"
proof (cases "c = 27 \<or> escape_buf s \<noteq> [] \<or> \<not> (c = 114 \<or> c = 82)")
  case True
  with assms show ?thesis
    by (auto simp: handle_key_def fetched_or_failed_def Let_def split: if_splits)
next
  case False
  with assms obtain s' where "do_fetch env s = Inr s'" "s1 = s'"
    by (auto simp: handle_key_def split: sum.splits)
  then show ?thesis
    by (simp add: do_fetch_fetched_or_failed)
qed

lemma clear_stale_fetched_or_failed:
  "fetched_or_failed (clear_stale clock s) = fetched_or_failed s"
  by (simp add: clear_stale_def fetched_or_failed_def)

lemma refresh_check_fetched_or_failed:
  assumes "refresh_check now env s = Next s'" "fetched_or_failed s"
  shows "fetched_or_failed s'"
proof (cases "refresh_due s now")
  case True
  with assms(1) obtain s1 where "do_fetch env s = Inr s1" "s' = s1"
    by (auto simp: refresh_check_due split: sum.splits)
  then show ?thesis
    by (simp add: do_fetch_fetched_or_failed)
next
  case False
  with assms show ?thesis
    by (simp add: refresh_check_due)
qed

lemma loop_body_fetched_or_failed:
  assumes "loop_body t s = Next s'" "fetched_or_failed s"
  shows "fetched_or_failed s'"
proof -
  from assms(1) obtain s1 where
    key: "handle_key (ch t) (key_clock t) (manual_env t) s = Next s1" and
    check: "refresh_check (now_clock t) (refresh_env t) (clear_stale (stale_clock t) s1) = Next s'"
    by (auto simp: loop_body_def split: result.splits)
  from key assms(2) have "fetched_or_failed (clear_stale (stale_clock t) s1)"
    by (simp add: handle_key_fetched_or_failed clear_stale_fetched_or_failed)
  with check show ?thesis
    by (rule refresh_check_fetched_or_failed)
qed

lemma reachable_fetched_or_failed: "reachable s \<Longrightarrow> fetched_or_failed s"
proof (induction rule: reachable.induct)
  case (initial env s)
  then show ?case by (rule do_fetch_fetched_or_failed)
next
  case (step s t s')
  then show ?case by (simp add: loop_body_fetched_or_failed)
qed

lemma refresh_eventually_due:
  assumes "fetched_or_failed s"
  shows "\<exists>T. \<forall>now \<ge> T. refresh_due s now"
proof (cases "last_fetch_time s")
  case None
  with assms have "\<forall>now \<ge> last_fetch_attempt s + 10. refresh_due s now"
    by (simp add: refresh_due_def fetched_or_failed_def)
  then show ?thesis ..
next
  case (Some t)
  then have "\<forall>now \<ge> t + 600. refresh_due s now"
    by (simp add: refresh_due_def)
  then show ?thesis ..
qed

text \<open>
  C10. Every state of the loop has a fetch that succeeded or an error message set:
  every call of \<^verbatim>\<open>do_fetch\<close> that returns leaves one of the two, and an iteration of
  the loop keeps it. In such a state the scheduler's rule holds from some time on, so
  the loop fetches again.
\<close>

theorem fetched_or_failed_invariant:
  "(reachable s \<longrightarrow> fetched_or_failed s)
   \<and> (do_fetch env s0 = Inr s1 \<longrightarrow> fetched_or_failed s1)
   \<and> (fetched_or_failed s \<and> loop_body t s = Next s' \<longrightarrow> fetched_or_failed s')
   \<and> (fetched_or_failed s \<longrightarrow> (\<exists>T. \<forall>now \<ge> T. refresh_due s now))"
  using reachable_fetched_or_failed [of s] do_fetch_fetched_or_failed [of env s0 s1]
    loop_body_fetched_or_failed [of t s s'] refresh_eventually_due [of s]
  by blast

text \<open>
  C10 on a machine without the \<^verbatim>\<open>security\<close> command: the state after the initial
  fetch has the error set; a manual refresh that succeeds then gives a state with a
  fetch time.
\<close>

theorem fetched_or_failed_invariant_witness:
  "reachable (initial_state\<lparr>last_fetch_attempt := 0,
        error_msg := Some ([CHR 0x27] @ ''security'' @ [CHR 0x27]
                            @ '' command not found (macOS only)'')\<rparr>)
   \<and> fetched_or_failed (initial_state\<lparr>last_fetch_attempt := 0,
        error_msg := Some ([CHR 0x27] @ ''security'' @ [CHR 0x27]
                            @ '' command not found (macOS only)'')\<rparr>)
   \<and> loop_body
        \<lparr>ch = 114, key_clock = 5, manual_env = with_token (Response (JObj [])),
         stale_clock = 5, now_clock = 5, refresh_env = no_keychain\<rparr>
        (initial_state\<lparr>last_fetch_attempt := 0,
           error_msg := Some ([CHR 0x27] @ ''security'' @ [CHR 0x27]
                            @ '' command not found (macOS only)'')\<rparr>)
      = Next (initial_state\<lparr>last_fetch_attempt := 100, error_msg := None, categories := [],
           last_fetch_time := Some 101\<rparr>)
   \<and> fetched_or_failed (initial_state\<lparr>last_fetch_attempt := 100, error_msg := None,
        categories := [], last_fetch_time := Some 101\<rparr>)
   \<and> (\<exists>T. \<forall>now \<ge> T. refresh_due (initial_state\<lparr>last_fetch_attempt := 0,
        error_msg := Some ([CHR 0x27] @ ''security'' @ [CHR 0x27]
                            @ '' command not found (macOS only)'')\<rparr>) now)"
proof -
  let ?s1 = "initial_state\<lparr>last_fetch_attempt := 0,
        error_msg := Some ([CHR 0x27] @ ''security'' @ [CHR 0x27]
                            @ '' command not found (macOS only)'')\<rparr>"
  let ?s2 = "initial_state\<lparr>last_fetch_attempt := 100, error_msg := None, categories := [],
           last_fetch_time := Some 101\<rparr>"
  let ?env = "with_token (Response (JObj []))"
  let ?t = "\<lparr>ch = 114, key_clock = 5, manual_env = ?env,
         stale_clock = 5, now_clock = 5, refresh_env = no_keychain\<rparr>"
  have "do_fetch no_keychain initial_state = Inr ?s1"
    by (simp add: no_keychain_fetch)
  then have r1: "reachable ?s1"
    by (rule reachable.initial)
  with fetched_or_failed_invariant [of ?s1] have f1: "fetched_or_failed ?s1"
    by blast
  have "fetch_usage (JStr ''token'') (urlopen ?env) = (JObj [], None)"
    by (simp add: with_token_def fetch_usage_def)
  from do_fetch_success [OF with_token_token this, of ?s1]
  have fetch: "do_fetch ?env ?s1 = Inr ?s2"
    by (simp add: with_token_def parse_usage_def CATEGORY_ORDER_def initial_state_def)
  have "escape_buf ?s1 = []"
    by (simp add: initial_state_def)
  with fetch have key: "handle_key 114 5 ?env ?s1 = Next ?s2"
    by (simp add: handle_key_def)
  have "clear_stale 5 ?s2 = ?s2"
    by (simp add: clear_stale_def initial_state_def)
  moreover have "refresh_check 5 no_keychain ?s2 = Next ?s2"
    by (simp add: refresh_check_def initial_state_def REFRESH_FOCUSED_def)
  ultimately have body: "loop_body ?t ?s1 = Next ?s2"
    using key by (simp add: loop_body_def)
  with fetched_or_failed_invariant [of ?s1 _ _ _ ?t ?s2] f1 have f2: "fetched_or_failed ?s2"
    by blast
  from fetched_or_failed_invariant [of ?s1] f1
  have due: "\<exists>T. \<forall>now \<ge> T. refresh_due ?s1 now"
    by blast
  from r1 f1 body f2 due show ?thesis
    by blast
qed

section \<open>Properties of the focus parser\<close>

lemma refresh_check_frame:
  assumes "mapping_payload env"
  shows "\<exists>s'. refresh_check now env s = Next s' \<and> has_focus s' = has_focus s
           \<and> escape_buf s' = escape_buf s \<and> escape_time s' = escape_time s"
proof (cases "refresh_due s now")
  case True
  from do_fetch_total [OF assms] obtain s1 where fetch: "do_fetch env s = Inr s1" ..
  with True do_fetch_frame [OF fetch] show ?thesis
    by (simp add: refresh_check_due)
next
  case False
  then show ?thesis
    by (simp add: refresh_check_due)
qed

lemma loop_body_parser:
  assumes "mapping_payload (refresh_env t)"
    and "handle_key (ch t) (key_clock t) (manual_env t) s = Next s1"
  shows "\<exists>s'. loop_body t s = Next s' \<and> has_focus s' = has_focus s1
           \<and> escape_time s' = escape_time s1
           \<and> escape_buf s' =
               (if escape_buf s1 \<noteq> [] \<and> stale_clock t - escape_time s1 > 1 / 2 then []
                else escape_buf s1)"
proof -
  from refresh_check_frame [OF assms(1), of "now_clock t" "clear_stale (stale_clock t) s1"]
  obtain s' where
    "refresh_check (now_clock t) (refresh_env t) (clear_stale (stale_clock t) s1) = Next s'"
    "has_focus s' = has_focus (clear_stale (stale_clock t) s1)"
    "escape_buf s' = escape_buf (clear_stale (stale_clock t) s1)"
    "escape_time s' = escape_time (clear_stale (stale_clock t) s1)"
    by blast
  with assms(2) show ?thesis
    by (simp add: loop_body_def clear_stale_def)
qed

lemma step_esc:
  assumes "mapping_payload (refresh_env t)" "ch t = 27"
  shows "\<exists>s'. loop_body t s = Next s' \<and> has_focus s' = has_focus s
           \<and> escape_time s' = key_clock t
           \<and> escape_buf s' = (if stale_clock t - key_clock t > 1 / 2 then [] else [27])"
proof -
  from assms(2)
  have "handle_key (ch t) (key_clock t) (manual_env t) s
          = Next (s\<lparr>escape_buf := [27], escape_time := key_clock t\<rparr>)"
    by (simp add: handle_key_def)
  from loop_body_parser [OF assms(1) this] show ?thesis
    by auto
qed

lemma step_bracket:
  assumes "mapping_payload (refresh_env t)" "ch t = 91" "escape_buf s = [27]"
  shows "\<exists>s'. loop_body t s = Next s' \<and> has_focus s' = has_focus s
           \<and> escape_time s' = escape_time s
           \<and> escape_buf s' = (if stale_clock t - escape_time s > 1 / 2 then [] else [27, 91])"
proof -
  from assms(2,3)
  have "handle_key (ch t) (key_clock t) (manual_env t) s = Next (s\<lparr>escape_buf := [27, 91]\<rparr>)"
    by (simp add: handle_key_def)
  from loop_body_parser [OF assms(1) this] show ?thesis
    by auto
qed

lemma step_third:
  assumes "mapping_payload (refresh_env t)" "ch t \<noteq> 27" "escape_buf s = [27, 91]"
  shows "\<exists>s'. loop_body t s = Next s' \<and> escape_buf s' = []
           \<and> has_focus s' =
               (if ch t = 73 then True else if ch t = 79 then False else has_focus s)"
proof -
  from assms(2,3)
  have "handle_key (ch t) (key_clock t) (manual_env t) s =
          Next (if ch t = 73 then s\<lparr>has_focus := True, escape_buf := []\<rparr>
                else if ch t = 79 then s\<lparr>has_focus := False, escape_buf := []\<rparr>
                else s\<lparr>escape_buf := []\<rparr>)"
    by (simp add: handle_key_def)
  from loop_body_parser [OF assms(1) this] show ?thesis
    by auto
qed

lemma step_other:
  assumes "mapping_payload (refresh_env t)" "ch t = 91 \<or> ch t = 73 \<or> ch t = 79"
    and "escape_buf s = []"
  shows "\<exists>s'. loop_body t s = Next s' \<and> escape_buf s' = [] \<and> has_focus s' = has_focus s"
proof -
  from assms(2,3)
  have "handle_key (ch t) (key_clock t) (manual_env t) s = Next s"
    by (auto simp: handle_key_def KEY_RESIZE_def)
  from loop_body_parser [OF assms(1) this] assms(3) show ?thesis
    by auto
qed

lemma key_at_fields:
  "ch (key_at c t) = c" "key_clock (key_at c t) = t" "stale_clock (key_at c t) = t"
  "mapping_payload (refresh_env (key_at c t))"
  by (simp_all add: key_at_def mapping_payload_def no_keychain_def)

text \<open>
  C4. From any state of the parser, Idle in particular, the keys ESC, \<open>[\<close> and a third
  key other than ESC, each handled before the stale check has seen more than half a
  second since the ESC: the loop runs on, the buffer is empty again, and the focus is
  set by \<open>I\<close> (73), cleared by \<open>O\<close> (79) and left alone by any other key, 88 among them.
\<close>

theorem focus_sequence_recognised:
  assumes "ch t1 = 27" "ch t2 = 91" "ch t3 = b" "b \<noteq> 27"
    and "stale_clock t1 - key_clock t1 \<le> 1 / 2" "stale_clock t2 - key_clock t1 \<le> 1 / 2"
    and "mapping_payload (refresh_env t1)" "mapping_payload (refresh_env t2)"
      "mapping_payload (refresh_env t3)"
  shows "\<exists>s'. run [t1, t2, t3] s = Next s' \<and> escape_buf s' = []
           \<and> has_focus s' = (if b = 73 then True else if b = 79 then False else has_focus s)"
proof -
  from step_esc [OF assms(7) assms(1), of s] assms(5)
  obtain s1 where s1: "loop_body t1 s = Next s1" "has_focus s1 = has_focus s"
      "escape_time s1 = key_clock t1" "escape_buf s1 = [27]"
    by auto
  from step_bracket [OF assms(8) assms(2) s1(4)] s1(2,3) assms(6)
  obtain s2 where s2: "loop_body t2 s1 = Next s2" "has_focus s2 = has_focus s"
      "escape_buf s2 = [27, 91]"
    by auto
  from assms(3,4) have "ch t3 \<noteq> 27" by simp
  from step_third [OF assms(9) this s2(3)]
  have "\<exists>s3. loop_body t3 s2 = Next s3 \<and> escape_buf s3 = []
          \<and> has_focus s3 = (if b = 73 then True else if b = 79 then False else has_focus s)"
    unfolding assms(3) s2(2) .
  then obtain s3 where s3: "loop_body t3 s2 = Next s3" "escape_buf s3 = []"
      "has_focus s3 = (if b = 73 then True else if b = 79 then False else has_focus s)"
    by blast
  from s1(1) s2(1) s3 show ?thesis
    by simp
qed

text \<open>
  C4 on the three sequences of the claim, a tenth of a second between the keys.
\<close>

theorem focus_sequence_recognised_witness:
  "(\<exists>s'. run [key_at 27 1, key_at 91 (11 / 10), key_at 73 (12 / 10)] (fetched_at False 0)
            = Next s' \<and> escape_buf s' = [] \<and> has_focus s' = True)
   \<and> (\<exists>s'. run [key_at 27 1, key_at 91 (11 / 10), key_at 79 (12 / 10)] (fetched_at True 0)
            = Next s' \<and> escape_buf s' = [] \<and> has_focus s' = False)
   \<and> (\<exists>s'. run [key_at 27 1, key_at 91 (11 / 10), key_at 88 (12 / 10)] (fetched_at False 0)
            = Next s' \<and> escape_buf s' = [] \<and> has_focus s' = False)"
proof -
  have window: "stale_clock (key_at 27 1) - key_clock (key_at 27 1) \<le> 1 / 2"
      "stale_clock (key_at 91 (11 / 10)) - key_clock (key_at 27 1) \<le> 1 / 2"
    by (simp_all add: key_at_fields)
  have focus: "has_focus (fetched_at False 0) = False" "has_focus (fetched_at True 0) = True"
    by (simp_all add: fetched_at_def)
  from focus_sequence_recognised [of "key_at 27 1" "key_at 91 (11 / 10)" "key_at 73 (12 / 10)" 73
      "fetched_at False 0"] window
  have gained: "\<exists>s'. run [key_at 27 1, key_at 91 (11 / 10), key_at 73 (12 / 10)]
      (fetched_at False 0) = Next s' \<and> escape_buf s' = [] \<and> has_focus s' = True"
    by (simp add: key_at_fields)
  from focus_sequence_recognised [of "key_at 27 1" "key_at 91 (11 / 10)" "key_at 79 (12 / 10)" 79
      "fetched_at True 0"] window
  have lost: "\<exists>s'. run [key_at 27 1, key_at 91 (11 / 10), key_at 79 (12 / 10)]
      (fetched_at True 0) = Next s' \<and> escape_buf s' = [] \<and> has_focus s' = False"
    by (simp add: key_at_fields)
  from focus_sequence_recognised [of "key_at 27 1" "key_at 91 (11 / 10)" "key_at 88 (12 / 10)" 88
      "fetched_at False 0"] window focus
  have kept: "\<exists>s'. run [key_at 27 1, key_at 91 (11 / 10), key_at 88 (12 / 10)]
      (fetched_at False 0) = Next s' \<and> escape_buf s' = [] \<and> has_focus s' = False"
    by (simp add: key_at_fields)
  from gained lost kept show ?thesis
    by blast
qed

text \<open>
  C2, as the program has it. The test \<^verbatim>\<open>ch == 27\<close> comes first in the chain, before
  the buffer is looked at: an ESC starts a new sequence in every state of the parser,
  after ESC \<open>[\<close> too. So in the keys 27, 91, 27, 91, 73 the last three are a focus-in
  sequence, and the focus is set.
\<close>

theorem esc_restarts_sequence:
  assumes "ch t1 = 27" "ch t2 = 91" "ch t3 = 27" "ch t4 = 91" "ch t5 = 73"
    and "stale_clock t3 - key_clock t3 \<le> 1 / 2" "stale_clock t4 - key_clock t3 \<le> 1 / 2"
    and "mapping_payload (refresh_env t1)" "mapping_payload (refresh_env t2)"
      "mapping_payload (refresh_env t3)" "mapping_payload (refresh_env t4)"
      "mapping_payload (refresh_env t5)"
  shows "handle_key 27 clock env s = Next (s\<lparr>escape_buf := [27], escape_time := clock\<rparr>)
     \<and> (\<exists>s'. run [t1, t2, t3, t4, t5] s = Next s' \<and> escape_buf s' = [] \<and> has_focus s' = True)"
proof -
  from step_esc [OF assms(8) assms(1), of s]
  obtain s1 where s1: "loop_body t1 s = Next s1" "escape_buf s1 = [] \<or> escape_buf s1 = [27]"
    by (auto split: if_splits)
  have "\<exists>s2. loop_body t2 s1 = Next s2"
  proof (cases "escape_buf s1 = []")
    case True
    with step_other [OF assms(9), of s1] assms(2) show ?thesis by auto
  next
    case False
    with s1(2) step_bracket [OF assms(9) assms(2), of s1] show ?thesis by auto
  qed
  then obtain s2 where s2: "loop_body t2 s1 = Next s2" ..
  from step_esc [OF assms(10) assms(3), of s2] assms(6)
  obtain s3 where s3: "loop_body t3 s2 = Next s3" "escape_time s3 = key_clock t3"
      "escape_buf s3 = [27]"
    by auto
  from step_bracket [OF assms(11) assms(4) s3(3)] s3(2) assms(7)
  obtain s4 where s4: "loop_body t4 s3 = Next s4" "escape_buf s4 = [27, 91]"
    by auto
  from assms(5) have "ch t5 \<noteq> 27" by simp
  from step_third [OF assms(12) this s4(2)] assms(5)
  obtain s5 where s5: "loop_body t5 s4 = Next s5" "escape_buf s5 = []" "has_focus s5 = True"
    by auto
  have "handle_key 27 clock env s = Next (s\<lparr>escape_buf := [27], escape_time := clock\<rparr>)"
    by (simp add: handle_key_def)
  with s1(1) s2 s3(1) s4(1) s5 show ?thesis
    by simp
qed

text \<open>
  C2 on a state without the focus whose parser has read ESC \<open>[\<close>, and on the five keys
  a tenth of a second apart.
\<close>

theorem esc_restarts_sequence_witness:
  "handle_key 27 3 no_keychain ((fetched_at False 0)\<lparr>escape_buf := [27, 91], escape_time := 2\<rparr>)
     = Next ((fetched_at False 0)\<lparr>escape_buf := [27], escape_time := 3\<rparr>)
   \<and> (\<exists>s'. run [key_at 27 1, key_at 91 (11 / 10), key_at 27 (12 / 10), key_at 91 (13 / 10),
               key_at 73 (14 / 10)] (fetched_at False 0) = Next s'
           \<and> escape_buf s' = [] \<and> has_focus s' = True)"
proof -
  have window: "stale_clock (key_at 27 (12 / 10)) - key_clock (key_at 27 (12 / 10)) \<le> 1 / 2"
      "stale_clock (key_at 91 (13 / 10)) - key_clock (key_at 27 (12 / 10)) \<le> 1 / 2"
    by (simp_all add: key_at_fields)
  from esc_restarts_sequence [of "key_at 27 1" "key_at 91 (11 / 10)" "key_at 27 (12 / 10)"
      "key_at 91 (13 / 10)" "key_at 73 (14 / 10)" 3 no_keychain
      "(fetched_at False 0)\<lparr>escape_buf := [27, 91], escape_time := 2\<rparr>"] window
  have restart: "handle_key 27 3 no_keychain
      ((fetched_at False 0)\<lparr>escape_buf := [27, 91], escape_time := 2\<rparr>)
     = Next ((fetched_at False 0)\<lparr>escape_buf := [27], escape_time := 3\<rparr>)"
    by (simp add: key_at_fields)
  from esc_restarts_sequence [of "key_at 27 1" "key_at 91 (11 / 10)" "key_at 27 (12 / 10)"
      "key_at 91 (13 / 10)" "key_at 73 (14 / 10)" _ _ "fetched_at False 0"] window
  have "\<exists>s'. run [key_at 27 1, key_at 91 (11 / 10), key_at 27 (12 / 10), key_at 91 (13 / 10),
               key_at 73 (14 / 10)] (fetched_at False 0) = Next s'
           \<and> escape_buf s' = [] \<and> has_focus s' = True"
    by (simp add: key_at_fields)
  with restart show ?thesis
    by blast
qed

lemma run_example_defs:
  "loop_body (key_at c t) s =
     (case handle_key c t no_keychain s of
        Next s1 \<Rightarrow> refresh_check t no_keychain (clear_stale t s1)
      | Quit \<Rightarrow> Quit
      | Raise e \<Rightarrow> Raise e)"
  by (cases "handle_key c t no_keychain s") (simp_all add: loop_body_def key_at_def)

text \<open>
  C2 as the specification states it fails: the keys 27, 91, 27, 91, 73, a tenth of a
  second apart, on a state without the focus, leave the focus set.
\<close>

theorem esc_after_bracket_counterexample:
  "\<not> has_focus (fetched_at False 0)
   \<and> run [key_at 27 1, key_at 91 (11 / 10), key_at 27 (12 / 10), key_at 91 (13 / 10),
          key_at 73 (14 / 10)] (fetched_at False 0)
      = Next ((fetched_at False 0)\<lparr>has_focus := True, escape_time := 12 / 10\<rparr>)"
  by (simp add: run_example_defs handle_key_def clear_stale_def refresh_check_def
      fetched_at_def REFRESH_FOCUSED_def REFRESH_UNFOCUSED_def)

lemma stale_discard:
  assumes "ch t1 = 27" "ch t2 = 91" "ch t3 = 73 \<or> ch t3 = 79"
    and "stale_clock t1 - key_clock t1 > 1 / 2 \<or> stale_clock t2 - key_clock t1 > 1 / 2"
    and "mapping_payload (refresh_env t1)" "mapping_payload (refresh_env t2)"
      "mapping_payload (refresh_env t3)"
  shows "\<exists>s'. run [t1, t2, t3] s = Next s' \<and> escape_buf s' = [] \<and> has_focus s' = has_focus s"
proof -
  from step_esc [OF assms(5) assms(1), of s]
  obtain s1 where s1: "loop_body t1 s = Next s1" "has_focus s1 = has_focus s"
      "escape_time s1 = key_clock t1"
      "escape_buf s1 = (if stale_clock t1 - key_clock t1 > 1 / 2 then [] else [27])"
    by auto
  have "\<exists>s2. loop_body t2 s1 = Next s2 \<and> escape_buf s2 = [] \<and> has_focus s2 = has_focus s"
  proof (cases "stale_clock t1 - key_clock t1 > 1 / 2")
    case True
    with s1(4) have "escape_buf s1 = []" by simp
    with step_other [OF assms(6), of s1] assms(2) s1(2) show ?thesis by auto
  next
    case False
    with s1(4) assms(4) have "escape_buf s1 = [27]" "stale_clock t2 - escape_time s1 > 1 / 2"
      by (simp_all add: s1(3))
    with step_bracket [OF assms(6) assms(2), of s1] s1(2) show ?thesis by auto
  qed
  then obtain s2 where s2: "loop_body t2 s1 = Next s2" "escape_buf s2 = []"
      "has_focus s2 = has_focus s"
    by blast
  from step_other [OF assms(7) _ s2(2)] assms(3) s2(3)
  obtain s3 where "loop_body t3 s2 = Next s3" "escape_buf s3 = []" "has_focus s3 = has_focus s"
    by auto
  with s1(1) s2(1) show ?thesis
    by simp
qed

text \<open>
  C3, as the program has it. The stale check runs at the end of an iteration, after
  the key of that iteration was handled. When the check after the ESC or after the
  \<open>[\<close> sees more than half a second since the ESC, the buffer is emptied, and the \<open>I\<close>
  or \<open>O\<close> that follows does not touch the focus. And no check stands between reading
  a key and acting on it: when the buffer holds ESC \<open>[\<close>, the next key, if it is not an
  ESC, empties the buffer, \<open>I\<close> sets the focus and \<open>O\<close> clears it, whatever the clock
  readings of that iteration and however long ago the ESC was stamped.
\<close>

theorem stale_sequence_discarded:
  "(ch t1 = 27 \<and> ch t2 = 91 \<and> (ch t3 = 73 \<or> ch t3 = 79)
      \<and> (stale_clock t1 - key_clock t1 > 1 / 2 \<or> stale_clock t2 - key_clock t1 > 1 / 2)
      \<and> mapping_payload (refresh_env t1) \<and> mapping_payload (refresh_env t2)
      \<and> mapping_payload (refresh_env t3)
    \<longrightarrow> (\<exists>s'. run [t1, t2, t3] s = Next s' \<and> escape_buf s' = []
            \<and> has_focus s' = has_focus s))
   \<and> (mapping_payload (refresh_env t) \<and> ch t \<noteq> 27 \<and> escape_buf s0 = [27, 91]
    \<longrightarrow> (\<exists>s'. loop_body t s0 = Next s' \<and> escape_buf s' = []
            \<and> has_focus s' =
                (if ch t = 73 then True else if ch t = 79 then False else has_focus s0)))"
  using stale_discard [of t1 t2 t3 s] step_third [of t s0]
  by blast

text \<open>
  C3 on the specification's example: ESC, then \<open>[\<close> six tenths of a second later, then
  \<open>I\<close>; and on a buffer that holds an ESC stamped at 1 and \<open>[\<close>, with the key \<open>I\<close> read
  at 1.9.
\<close>

theorem stale_sequence_discarded_witness:
  "(stale_clock (key_at 91 (16 / 10)) - key_clock (key_at 27 1) > 1 / 2)
   \<and> (\<exists>s'. run [key_at 27 1, key_at 91 (16 / 10), key_at 73 (17 / 10)] (fetched_at False 0)
            = Next s' \<and> escape_buf s' = [] \<and> has_focus s' = False)
   \<and> key_clock (key_at 73 (19 / 10)) - 1 > 1 / 2
   \<and> (\<exists>s'. loop_body (key_at 73 (19 / 10))
              ((fetched_at False 0)\<lparr>escape_buf := [27, 91], escape_time := 1\<rparr>) = Next s'
           \<and> escape_buf s' = [] \<and> has_focus s' = True)"
proof -
  have late: "stale_clock (key_at 91 (16 / 10)) - key_clock (key_at 27 1) > 1 / 2"
      "key_clock (key_at 73 (19 / 10)) - 1 > 1 / 2"
    by (simp_all add: key_at_fields)
  from stale_sequence_discarded [of "key_at 27 1" "key_at 91 (16 / 10)" "key_at 73 (17 / 10)"
      "fetched_at False 0"] late
  have first: "\<exists>s'. run [key_at 27 1, key_at 91 (16 / 10), key_at 73 (17 / 10)]
      (fetched_at False 0) = Next s' \<and> escape_buf s' = []
      \<and> has_focus s' = has_focus (fetched_at False 0)"
    by (simp add: key_at_fields)
  from stale_sequence_discarded [of _ _ _ _ "key_at 73 (19 / 10)"
      "(fetched_at False 0)\<lparr>escape_buf := [27, 91], escape_time := 1\<rparr>"]
  have second: "\<exists>s'. loop_body (key_at 73 (19 / 10))
              ((fetched_at False 0)\<lparr>escape_buf := [27, 91], escape_time := 1\<rparr>) = Next s'
           \<and> escape_buf s' = [] \<and> has_focus s' = True"
    by (simp add: key_at_fields)
  from first second late show ?thesis
    by (simp add: fetched_at_def)
qed

text \<open>
  C3 as the specification states it fails: ESC and \<open>[\<close> a tenth of a second apart, then
  \<open>I\<close> nine tenths of a second after the ESC, on a state without the focus. No check
  stands between reading the \<open>I\<close> and acting on it, and the focus is set.
\<close>

theorem late_completion_counterexample:
  "\<not> has_focus (fetched_at False 0)
   \<and> key_clock (key_at 73 (19 / 10)) - key_clock (key_at 27 1) > 1 / 2
   \<and> run [key_at 27 1, key_at 91 (11 / 10), key_at 73 (19 / 10)] (fetched_at False 0)
      = Next ((fetched_at False 0)\<lparr>has_focus := True, escape_time := 1\<rparr>)"
  by (simp add: run_example_defs handle_key_def clear_stale_def refresh_check_def
      fetched_at_def REFRESH_FOCUSED_def REFRESH_UNFOCUSED_def key_at_fields)

end
